theory Spec2Isabelle
  imports Main "HOL-Library.Word" "HOL-Library.Multiset"
begin

section \<open>Strings: the parts of Go's \<open>strings\<close> package that \<open>combine.go\<close> calls\<close>

text \<open>
  A Go string is a sequence of bytes, here a \<open>string\<close> (a list of 8-bit characters).

  \<open>strings.Split(s, ",")\<close> cuts at every separator and keeps the empty pieces;
  the result is never empty (\<open>Split("", ",")\<close> is the one-element list of the empty string).
\<close>

fun Split :: "string \<Rightarrow> char \<Rightarrow> string list" where
  "Split [] sep = [[]]"
| "Split (c # cs) sep =
     (if c = sep then [] # Split cs sep
      else (case Split cs sep of
              [] \<Rightarrow> [[c]]
            | p # ps \<Rightarrow> (c # p) # ps))"

text \<open>
  \<open>strings.TrimSpace\<close> removes leading and trailing white space as Unicode defines it
  (\<open>unicode.IsSpace\<close>). On the bytes of a string these are the UTF-8 encodings below:
  the six ASCII characters tab, line feed, vertical tab, form feed, carriage return and
  space, then U+0085, U+00A0, U+1680, U+2000 to U+200A, U+2028, U+2029, U+202F, U+205F
  and U+3000. An encoding starts with a lead byte and goes on with continuation bytes, so
  the rune Go decodes at the start (at the end) of a string is white space exactly when
  the string starts (ends) with one of these byte sequences.
\<close>

definition spaceRunes :: "string list" where
  "spaceRunes =
     [[CHR 0x09], [CHR 0x0A], [CHR 0x0B], [CHR 0x0C], [CHR 0x0D], [CHR 0x20],
      [CHR 0xC2, CHR 0x85], [CHR 0xC2, CHR 0xA0],
      [CHR 0xE1, CHR 0x9A, CHR 0x80],
      [CHR 0xE2, CHR 0x80, CHR 0x80], [CHR 0xE2, CHR 0x80, CHR 0x81],
      [CHR 0xE2, CHR 0x80, CHR 0x82], [CHR 0xE2, CHR 0x80, CHR 0x83],
      [CHR 0xE2, CHR 0x80, CHR 0x84], [CHR 0xE2, CHR 0x80, CHR 0x85],
      [CHR 0xE2, CHR 0x80, CHR 0x86], [CHR 0xE2, CHR 0x80, CHR 0x87],
      [CHR 0xE2, CHR 0x80, CHR 0x88], [CHR 0xE2, CHR 0x80, CHR 0x89],
      [CHR 0xE2, CHR 0x80, CHR 0x8A],
      [CHR 0xE2, CHR 0x80, CHR 0xA8], [CHR 0xE2, CHR 0x80, CHR 0xA9],
      [CHR 0xE2, CHR 0x80, CHR 0xAF],
      [CHR 0xE2, CHR 0x81, CHR 0x9F],
      [CHR 0xE3, CHR 0x80, CHR 0x80]]"

text \<open>The number of bytes of the pattern of \<open>pats\<close> that \<open>s\<close> starts with; 0 when there is none.\<close>

definition leadWidth :: "string list \<Rightarrow> string \<Rightarrow> nat" where
  "leadWidth pats s =
     (case find (\<lambda>p. take (length p) s = p) pats of
        None \<Rightarrow> 0
      | Some p \<Rightarrow> length p)"

function trimLeftBy :: "string list \<Rightarrow> string \<Rightarrow> string" where
  "trimLeftBy pats s =
     (if leadWidth pats s = 0 then s
      else trimLeftBy pats (drop (leadWidth pats s) s))"
  by pat_completeness auto
termination
proof (relation "measure (\<lambda>(pats, s). length s)")
  show "wf (measure (\<lambda>(pats, s). length s))" by simp
next
  fix pats :: "string list" and s :: string
  assume w: "leadWidth pats s \<noteq> 0"
  from w have "s \<noteq> []"
    by (auto simp: leadWidth_def find_Some_iff split: option.splits)
  with w show "((pats, drop (leadWidth pats s) s), (pats, s)) \<in> measure (\<lambda>(pats, s). length s)"
    by simp
qed

declare trimLeftBy.simps [simp del]

definition TrimSpace :: "string \<Rightarrow> string" where
  "TrimSpace s = rev (trimLeftBy (map rev spaceRunes) (rev (trimLeftBy spaceRunes s)))"

definition HasPrefix :: "string \<Rightarrow> string \<Rightarrow> bool" where
  "HasPrefix s pre = (take (length pre) s = pre)"

definition TrimPrefix :: "string \<Rightarrow> string \<Rightarrow> string" where
  "TrimPrefix s pre = (if HasPrefix s pre then drop (length pre) s else s)"

section \<open>The metadata parser\<close>

text \<open>\<open>tagSpec\<close>, parsed from a struct tag \<open>"funcName,outputTarget"\<close>.\<close>

record tagSpec =
  funcName :: string
  outputTarget :: string

text \<open>
  \<open>parseTag\<close> returns \<open>(tagSpec, bool)\<close> in Go; \<open>None\<close> is the result with \<open>false\<close>.
\<close>

definition parseTag :: "string \<Rightarrow> tagSpec option" where
  "parseTag tag =
     (if tag = [] then None
      else
        let parts = Split tag CHR '','' in
        if length parts = 0 then None
        else
          let spec = \<lparr>funcName = TrimSpace (parts ! 0),
                      outputTarget = (if length parts > 1 then TrimSpace (parts ! 1) else [])\<rparr>
          in if funcName spec = [] then None else Some spec)"

section \<open>Values, types and records\<close>

text \<open>
  The values that travel through the engine as Go's \<open>any\<close>: the nil interface, an \<open>int\<close>
  (64 bits), a \<open>string\<close>, a \<open>bool\<close> and a \<open>[]string\<close> (a nil slice and an empty one are
  both \<open>VStrs []\<close>). The static types of fields and method parameters are the matching
  four types and \<open>any\<close>. Floating-point values, nested structs and maps are outside this
  model.
\<close>

datatype gval = VNil | VInt "64 word" | VStr string | VBool bool | VStrs "string list"

datatype gtype = TInt | TString | TBool | TStrs | TAny

text \<open>\<open>reflect.ValueOf(v).Type()\<close>; \<open>None\<close> is the invalid \<open>reflect.Value\<close> of a nil interface.\<close>

fun typeOf :: "gval \<Rightarrow> gtype option" where
  "typeOf VNil = None"
| "typeOf (VInt i) = Some TInt"
| "typeOf (VStr s) = Some TString"
| "typeOf (VBool b) = Some TBool"
| "typeOf (VStrs xs) = Some TStrs"

text \<open>\<open>reflect.Zero(t)\<close>, read back as a value.\<close>

fun Zero :: "gtype \<Rightarrow> gval" where
  "Zero TInt = VInt 0"
| "Zero TString = VStr []"
| "Zero TBool = VBool False"
| "Zero TStrs = VStrs []"
| "Zero TAny = VNil"

text \<open>
  \<open>Type.AssignableTo\<close> and \<open>Type.ConvertibleTo\<close> on these types: a type is assignable to
  itself and to \<open>any\<close>; beyond that, Go converts an integer to a string (the UTF-8
  encoding of the code point, U+FFFD for an integer that is none).
\<close>

definition AssignableTo :: "gtype \<Rightarrow> gtype \<Rightarrow> bool" where
  "AssignableTo t u = (t = u \<or> u = TAny)"

definition ConvertibleTo :: "gtype \<Rightarrow> gtype \<Rightarrow> bool" where
  "ConvertibleTo t u = (AssignableTo t u \<or> (t = TInt \<and> u = TString))"

definition encodeRune :: "int \<Rightarrow> string" where
  "encodeRune r =
     (if r < 0 \<or> 0x10FFFF < r \<or> (0xD800 \<le> r \<and> r \<le> 0xDFFF)
        then [CHR 0xEF, CHR 0xBF, CHR 0xBD]
      else if r < 0x80 then [char_of r]
      else if r < 0x800 then [char_of (0xC0 + r div 0x40), char_of (0x80 + r mod 0x40)]
      else if r < 0x10000
        then [char_of (0xE0 + r div 0x1000), char_of (0x80 + r div 0x40 mod 0x40),
              char_of (0x80 + r mod 0x40)]
      else [char_of (0xF0 + r div 0x40000), char_of (0x80 + r div 0x1000 mod 0x40),
            char_of (0x80 + r div 0x40 mod 0x40), char_of (0x80 + r mod 0x40)])"

text \<open>\<open>Value.Convert(t)\<close>, called only where \<open>ConvertibleTo\<close> holds.\<close>

fun Convert :: "gval \<Rightarrow> gtype \<Rightarrow> gval" where
  "Convert (VInt i) TString = VStr (encodeRune (sint i))"
| "Convert v t = v"

text \<open>
  A struct field with what \<open>reflect\<close> tells about it: its name, the value of its
  \<open>combine\<close> tag (\<open>Tag.Get("combine")\<close>, empty when there is none), its type, whether it is
  exported, and its current value. A method of the pointer's method set has a name, its
  parameter types and a body; the body gets the argument and the receiver's field values
  and returns the new field values. Structs are flat (no embedded fields).
\<close>

record gfield =
  f_name :: string
  f_tag :: string
  f_type :: gtype
  f_exported :: bool
  f_val :: gval

record method1 =
  m_name :: string
  m_in :: "gtype list"
  m_body :: "gval \<Rightarrow> gval list \<Rightarrow> gval list"

record gstruct =
  s_fields :: "gfield list"
  s_methods :: "method1 list"

type_synonym addr = nat

text \<open>
  An element of the batch (\<open>[]any\<close>): a pointer, a struct value boxed in the interface
  (a copy), or anything else. The structs that pointers lead to live in a store; an
  address with no struct there stands for a nil pointer or a pointer to something that
  is not a struct.
\<close>

datatype item = Ptr addr | StructVal gstruct | Other

text \<open>
  A \<open>reflect.Value\<close>: of a pointer, of the struct a pointer leads to (addressable), of a
  struct that was copied into an interface (not addressable), or of anything else.
\<close>

datatype rvalue = PtrV addr | StructAt addr | StructCopy gstruct | OtherV

datatype kind = KPtr | KStruct | KOther

fun Kind :: "rvalue \<Rightarrow> kind" where
  "Kind (PtrV a) = KPtr"
| "Kind (StructAt a) = KStruct"
| "Kind (StructCopy s) = KStruct"
| "Kind OtherV = KOther"

fun ValueOf :: "item \<Rightarrow> rvalue" where
  "ValueOf (Ptr a) = PtrV a"
| "ValueOf (StructVal s) = StructCopy s"
| "ValueOf Other = OtherV"

type_synonym store = "addr \<Rightarrow> gstruct option"

fun Elem :: "store \<Rightarrow> rvalue \<Rightarrow> rvalue" where
  "Elem m (PtrV a) = (case m a of None \<Rightarrow> OtherV | Some s \<Rightarrow> StructAt a)"
| "Elem m v = OtherV"

fun CanAddr :: "rvalue \<Rightarrow> bool" where
  "CanAddr (StructAt a) = True"
| "CanAddr v = False"

fun Addr :: "rvalue \<Rightarrow> rvalue" where
  "Addr (StructAt a) = PtrV a"
| "Addr v = OtherV"

text \<open>The fields and methods \<open>reflect\<close> finds through a value of kind struct or pointer.\<close>

fun fieldsOf :: "store \<Rightarrow> rvalue \<Rightarrow> gfield list" where
  "fieldsOf m (StructAt a) = (case m a of None \<Rightarrow> [] | Some s \<Rightarrow> s_fields s)"
| "fieldsOf m (StructCopy s) = s_fields s"
| "fieldsOf m v = []"

definition FieldByName :: "store \<Rightarrow> rvalue \<Rightarrow> string \<Rightarrow> gfield option" where
  "FieldByName m structVal fieldName = find (\<lambda>fd. f_name fd = fieldName) (fieldsOf m structVal)"

text \<open>\<open>Value.CanSet\<close> of a field: the struct is addressable and the field is exported.\<close>

definition CanSet :: "rvalue \<Rightarrow> gfield \<Rightarrow> bool" where
  "CanSet structVal fd = (CanAddr structVal \<and> f_exported fd)"

fun MethodByName :: "store \<Rightarrow> rvalue \<Rightarrow> string \<Rightarrow> method1 option" where
  "MethodByName m (PtrV a) name =
     (case m a of None \<Rightarrow> None | Some s \<Rightarrow> find (\<lambda>md. m_name md = name) (s_methods s))"
| "MethodByName m v name = None"

section \<open>The engine's state and results\<close>

type_synonym ctx = "string \<Rightarrow> gval option"

type_synonym resultMap = "gval \<Rightarrow> gval option"

text \<open>
  An \<open>AggregateHandler\<close>: \<open>Handle(values, combineCtx)\<close> returns a \<open>map[any]any\<close>. Handlers are
  taken to be functions of their two arguments that return normally.
\<close>

type_synonym handler = "gval list \<Rightarrow> ctx \<Rightarrow> resultMap"

record Combine =
  concurrent :: bool
  combineCtx :: ctx
  aggregateHandlers :: "string \<Rightarrow> handler option"

definition New :: "(Combine \<Rightarrow> Combine) list \<Rightarrow> Combine" where
  "New opts =
     fold (\<lambda>opt c. opt c) opts
       \<lparr>concurrent = False, combineCtx = Map.empty, aggregateHandlers = Map.empty\<rparr>"

definition WithConcurrent :: "Combine \<Rightarrow> Combine" where
  "WithConcurrent c = c\<lparr>concurrent := True\<rparr>"

definition WithCtx :: "ctx \<Rightarrow> Combine \<Rightarrow> Combine" where
  "WithCtx cx c = c\<lparr>combineCtx := cx\<rparr>"

definition Register :: "string \<Rightarrow> handler \<Rightarrow> Combine \<Rightarrow> Combine" where
  "Register name fn c = c\<lparr>aggregateHandlers := (aggregateHandlers c)(name \<mapsto> fn)\<rparr>"

text \<open>
  The errors \<open>Process\<close> returns, one constructor for each \<open>fmt.Errorf\<close> of the source, and
  the run-time panics of the Go operations it performs: \<open>Value.Interface\<close> on a field that
  is not exported, a map lookup with a key that cannot be hashed (a slice), \<open>Type.Field\<close>
  out of range.
\<close>

datatype panic = UnexportedField | UnhashableKey | FieldIndex

datatype error =
    ElemNotStruct
  | HandlerNotRegistered string
  | AggHandlerNotFound string
  | SetFieldTargetNotStruct
  | CannotSetField string
  | CannotAssign gtype string gtype
  | ReceiverNotAddressable
  | MethodNotFound string
  | MethodArity string
  | ArgNotAssignable gtype gtype
  | RuntimePanic panic

fun isPanic :: "error \<Rightarrow> bool" where
  "isPanic (RuntimePanic p) = True"
| "isPanic e = False"

text \<open>
  What a call observes and changes: the store of the records, and a log of what was done
  to whom (a handler invoked, a field set, an output method called), kept for stating
  the properties.
\<close>

datatype event =
    EvHandle string "gval list" ctx
  | EvSet addr string gval
  | EvCall addr string gval

record world =
  mem :: store
  log :: "event list"

section \<open>The result binder\<close>

definition derefIfPtr :: "store \<Rightarrow> rvalue \<Rightarrow> rvalue" where
  "derefIfPtr m v = (if Kind v = KPtr then Elem m v else v)"

text \<open>\<open>sv.Type().Field(idx).Name\<close>; \<open>Type.Field\<close> panics when the index is out of range.\<close>

definition refNameByIndex :: "store \<Rightarrow> rvalue \<Rightarrow> nat \<Rightarrow> panic + string" where
  "refNameByIndex m item idx =
     (let sv = derefIfPtr m item in
      if idx < length (fieldsOf m sv) then Inr (f_name (fieldsOf m sv ! idx)) else Inl FieldIndex)"

text \<open>
  \<open>fv.Set(v)\<close> for the field \<open>fieldName\<close> of an addressable struct: the first field of that
  name gets the value, and the write is logged.
\<close>

fun setByName :: "string \<Rightarrow> gval \<Rightarrow> gfield list \<Rightarrow> gfield list" where
  "setByName n v [] = []"
| "setByName n v (fd # fds) =
     (if f_name fd = n then fd\<lparr>f_val := v\<rparr> # fds else fd # setByName n v fds)"

definition SetValue :: "rvalue \<Rightarrow> string \<Rightarrow> gval \<Rightarrow> world \<Rightarrow> world" where
  "SetValue structVal fieldName v w =
     (case structVal of
        StructAt a \<Rightarrow>
          (case mem w a of
             None \<Rightarrow> w
           | Some s \<Rightarrow>
               w\<lparr>mem := (mem w)(a \<mapsto> s\<lparr>s_fields := setByName fieldName v (s_fields s)\<rparr>),
                  log := log w @ [EvSet a fieldName v]\<rparr>)
      | _ \<Rightarrow> w)"

definition setField :: "rvalue \<Rightarrow> string \<Rightarrow> gval \<Rightarrow> world \<Rightarrow> error option \<times> world" where
  "setField structVal0 fieldName value w =
     (let structVal = (if Kind structVal0 \<noteq> KStruct then derefIfPtr (mem w) structVal0
                       else structVal0)
      in if Kind structVal \<noteq> KStruct then (Some SetFieldTargetNotStruct, w)
      else
        (case FieldByName (mem w) structVal fieldName of
           None \<Rightarrow> (Some (CannotSetField fieldName), w)
         | Some fv \<Rightarrow>
             if \<not> CanSet structVal fv then (Some (CannotSetField fieldName), w)
             else
               (case typeOf value of
                  None \<Rightarrow> (None, SetValue structVal fieldName (Zero (f_type fv)) w)
                | Some t \<Rightarrow>
                    if AssignableTo t (f_type fv)
                      then (None, SetValue structVal fieldName value w)
                    else if ConvertibleTo t (f_type fv)
                      then (None, SetValue structVal fieldName (Convert value (f_type fv)) w)
                    else (Some (CannotAssign t fieldName (f_type fv)), w))))"

text \<open>
  \<open>m.Call\<close> on the receiver: the method body runs on the struct the pointer leads to, and
  the call is logged. The new field values replace the old ones position by position.
\<close>

definition setVals :: "gfield list \<Rightarrow> gval list \<Rightarrow> gfield list" where
  "setVals fds vs =
     map (\<lambda>(fd, i). if i < length vs then fd\<lparr>f_val := vs ! i\<rparr> else fd)
       (zip fds [0..<length fds])"

definition Call :: "rvalue \<Rightarrow> method1 \<Rightarrow> gval \<Rightarrow> world \<Rightarrow> world" where
  "Call recv md v w =
     (case recv of
        PtrV a \<Rightarrow>
          (case mem w a of
             None \<Rightarrow> w
           | Some s \<Rightarrow>
               w\<lparr>mem := (mem w)(a \<mapsto>
                      s\<lparr>s_fields := setVals (s_fields s) (m_body md v (map f_val (s_fields s)))\<rparr>),
                  log := log w @ [EvCall a (m_name md) v]\<rparr>)
      | _ \<Rightarrow> w)"

definition callOutputFunc :: "rvalue \<Rightarrow> string \<Rightarrow> gval \<Rightarrow> world \<Rightarrow> error option \<times> world" where
  "callOutputFunc item method arg w =
     (case (if Kind item = KPtr then Some item
            else if CanAddr item then Some (Addr item)
            else None) of
        None \<Rightarrow> (Some ReceiverNotAddressable, w)
      | Some recv \<Rightarrow>
          (case MethodByName (mem w) recv method of
             None \<Rightarrow> (Some (MethodNotFound method), w)
           | Some md \<Rightarrow>
               if length (m_in md) \<noteq> 1 then (Some (MethodArity method), w)
               else
                 (case typeOf arg of
                    None \<Rightarrow> (None, Call recv md (Zero (m_in md ! 0)) w)
                  | Some t \<Rightarrow>
                      if \<not> AssignableTo t (m_in md ! 0) then
                        (if ConvertibleTo t (m_in md ! 0)
                           then (None, Call recv md (Convert arg (m_in md ! 0)) w)
                         else (Some (ArgNotAssignable t (m_in md ! 0)), w))
                      else (None, Call recv md arg w))))"

section \<open>Process\<close>

text \<open>\<open>fieldRef\<close>; its field \<open>output\<close> is \<open>outputTgt\<close> here.\<close>

record fieldRef =
  itemValue :: rvalue
  fieldIdx :: nat
  fieldVal :: gval
  outputTgt :: string

record aggTask =
  t_name :: string
  t_refs :: "fieldRef list"
  t_values :: "gval list"

text \<open>
  The map \<open>aggregates\<close> from function names to their \<open>fieldRef\<close>s, as an association list:
  a new name goes to the end, so the list is in the order the names were first met.
\<close>

type_synonym aggregates = "(string \<times> fieldRef list) list"

fun appendRef :: "string \<Rightarrow> fieldRef \<Rightarrow> aggregates \<Rightarrow> aggregates" where
  "appendRef n r [] = [(n, [r])]"
| "appendRef n r ((k, rs) # rest) =
     (if k = n then (k, rs @ [r]) # rest else (k, rs) # appendRef n r rest)"

text \<open>The first pass: the loop over the fields of one element, then the loop over the elements.\<close>

fun collectFields ::
  "Combine \<Rightarrow> rvalue \<Rightarrow> gfield list \<Rightarrow> nat \<Rightarrow> aggregates \<Rightarrow> error + aggregates" where
  "collectFields c elem [] fi aggs = Inr aggs"
| "collectFields c elem (fd # rest) fi aggs =
     (case parseTag (f_tag fd) of
        None \<Rightarrow> collectFields c elem rest (Suc fi) aggs
      | Some spec \<Rightarrow>
          if \<not> f_exported fd then Inl (RuntimePanic UnexportedField)
          else
            (case aggregateHandlers c (funcName spec) of
               Some h \<Rightarrow>
                 collectFields c elem rest (Suc fi)
                   (appendRef (funcName spec)
                      \<lparr>itemValue = elem, fieldIdx = fi, fieldVal = f_val fd,
                       outputTgt = outputTarget spec\<rparr> aggs)
             | None \<Rightarrow> Inl (HandlerNotRegistered (funcName spec))))"

fun collectItems :: "Combine \<Rightarrow> store \<Rightarrow> item list \<Rightarrow> aggregates \<Rightarrow> error + aggregates" where
  "collectItems c m [] aggs = Inr aggs"
| "collectItems c m (it # its) aggs =
     (let elem = ValueOf it;
          structVal = (if Kind elem = KPtr then Elem m elem else elem)
      in if Kind structVal \<noteq> KStruct then Inl ElemNotStruct
      else
        (case collectFields c elem (fieldsOf m structVal) 0 aggs of
           Inl e \<Rightarrow> Inl e
         | Inr aggs' \<Rightarrow> collectItems c m its aggs'))"

text \<open>
  \<open>for name, refs := range aggregates\<close>: Go visits the entries of a map in an order of its
  own choosing, which \<open>mapRange\<close> stands for. Any function that only permutes its
  argument is such an order.
\<close>

definition buildTasks :: "(aggregates \<Rightarrow> aggregates) \<Rightarrow> aggregates \<Rightarrow> aggTask list" where
  "buildTasks mapRange aggs =
     map (\<lambda>(n, rs). \<lparr>t_name = n, t_refs = rs, t_values = map fieldVal rs\<rparr>) (mapRange aggs)"

text \<open>
  The result for one entry: the key \<open>idx\<close> first, then the key \<open>ref.fieldVal\<close>, then nil.
  Indexing a \<open>map[any]any\<close> with a key whose dynamic type is a slice panics.
\<close>

fun hashable :: "gval \<Rightarrow> bool" where
  "hashable (VStrs xs) = False"
| "hashable v = True"

definition resolveOut :: "resultMap \<Rightarrow> nat \<Rightarrow> fieldRef \<Rightarrow> panic + gval" where
  "resolveOut result idx ref =
     (case result (VInt (of_nat idx)) of
        Some v \<Rightarrow> Inr v
      | None \<Rightarrow>
          if \<not> hashable (fieldVal ref) then Inl UnhashableKey
          else (case result (fieldVal ref) of Some v \<Rightarrow> Inr v | None \<Rightarrow> Inr VNil))"

text \<open>The body of the loop over \<open>task.refs\<close> in \<open>runTask\<close>, and the loop.\<close>

definition bindRef :: "resultMap \<Rightarrow> nat \<Rightarrow> fieldRef \<Rightarrow> world \<Rightarrow> error option \<times> world" where
  "bindRef result idx ref w =
     (case resolveOut result idx ref of
        Inl p \<Rightarrow> (Some (RuntimePanic p), w)
      | Inr out \<Rightarrow>
          if outputTgt ref = [] \<or> \<not> HasPrefix (outputTgt ref) ''fn:'' then
            (case (if outputTgt ref = [] then refNameByIndex (mem w) (itemValue ref) (fieldIdx ref)
                   else Inr (outputTgt ref)) of
               Inl p \<Rightarrow> (Some (RuntimePanic p), w)
             | Inr targetName \<Rightarrow>
                 setField (derefIfPtr (mem w) (itemValue ref)) targetName out w)
          else callOutputFunc (itemValue ref) (TrimPrefix (outputTgt ref) ''fn:'') out w)"

fun bindRefs :: "resultMap \<Rightarrow> (nat \<times> fieldRef) list \<Rightarrow> world \<Rightarrow> error option \<times> world" where
  "bindRefs result [] w = (None, w)"
| "bindRefs result ((idx, ref) # rest) w =
     (case bindRef result idx ref w of
        (Some e, w') \<Rightarrow> (Some e, w')
      | (None, w') \<Rightarrow> bindRefs result rest w')"

definition runTask :: "Combine \<Rightarrow> aggTask \<Rightarrow> world \<Rightarrow> error option \<times> world" where
  "runTask c task w =
     (case aggregateHandlers c (t_name task) of
        None \<Rightarrow> (Some (AggHandlerNotFound (t_name task)), w)
      | Some h \<Rightarrow>
          bindRefs (h (t_values task) (combineCtx c)) (enumerate 0 (t_refs task))
            (w\<lparr>log := log w @ [EvHandle (t_name task) (t_values task) (combineCtx c)]\<rparr>))"

text \<open>Sequential mode: \<open>for _, task := range tasks\<close>, returning at the first error.\<close>

fun runTasks :: "Combine \<Rightarrow> aggTask list \<Rightarrow> world \<Rightarrow> error option \<times> world" where
  "runTasks c [] w = (None, w)"
| "runTasks c (task # rest) w =
     (case runTask c task w of
        (Some e, w') \<Rightarrow> (Some e, w')
      | (None, w') \<Rightarrow> runTasks c rest w')"

text \<open>
  Concurrent mode: one goroutine for each task, each running \<open>runTask\<close>. A goroutine is
  fresh, or has its handler's result and the entries it still has to bind, or is done.
  It moves in steps: the call of the handler, then one entry of its loop at a time. The
  schedule says which goroutine moves next; when the schedule is used up, the
  goroutines that are left run to their end one after the other (\<open>wg.Wait()\<close> returns
  only then). The first error that occurs is the one kept (\<open>once.Do\<close>); a panic in a
  goroutine ends the program where it is.
\<close>

datatype thread = Fresh aggTask | Running resultMap "(nat \<times> fieldRef) list" | Finished

fun stepThread :: "Combine \<Rightarrow> thread \<Rightarrow> world \<Rightarrow> thread \<times> error option \<times> world" where
  "stepThread c (Fresh task) w =
     (case aggregateHandlers c (t_name task) of
        None \<Rightarrow> (Finished, Some (AggHandlerNotFound (t_name task)), w)
      | Some h \<Rightarrow>
          (Running (h (t_values task) (combineCtx c)) (enumerate 0 (t_refs task)), None,
           w\<lparr>log := log w @ [EvHandle (t_name task) (t_values task) (combineCtx c)]\<rparr>))"
| "stepThread c (Running result []) w = (Finished, None, w)"
| "stepThread c (Running result ((idx, ref) # rest)) w =
     (case bindRef result idx ref w of
        (Some e, w') \<Rightarrow> (Finished, Some e, w')
      | (None, w') \<Rightarrow> (Running result rest, None, w'))"
| "stepThread c Finished w = (Finished, None, w)"

fun finish :: "Combine \<Rightarrow> thread \<Rightarrow> world \<Rightarrow> error option \<times> world" where
  "finish c (Fresh task) w = runTask c task w"
| "finish c (Running result todo) w = bindRefs result todo w"
| "finish c Finished w = (None, w)"

definition keepFirst :: "error option \<Rightarrow> error \<Rightarrow> error option" where
  "keepFirst firstErr e = (case firstErr of None \<Rightarrow> Some e | Some e0 \<Rightarrow> Some e0)"

fun drain :: "Combine \<Rightarrow> thread list \<Rightarrow> error option \<Rightarrow> world \<Rightarrow> error option \<times> world" where
  "drain c [] firstErr w = (firstErr, w)"
| "drain c (th # ths) firstErr w =
     (case finish c th w of
        (None, w') \<Rightarrow> drain c ths firstErr w'
      | (Some e, w') \<Rightarrow>
          if isPanic e then (Some e, w') else drain c ths (keepFirst firstErr e) w')"

fun runConc ::
  "Combine \<Rightarrow> nat list \<Rightarrow> thread list \<Rightarrow> error option \<Rightarrow> world \<Rightarrow> error option \<times> world" where
  "runConc c [] ths firstErr w = drain c ths firstErr w"
| "runConc c (i # sched) ths firstErr w =
     (if i < length ths then
        (case stepThread c (ths ! i) w of
           (th', None, w') \<Rightarrow> runConc c sched (ths[i := th']) firstErr w'
         | (th', Some e, w') \<Rightarrow>
             if isPanic e then (Some e, w')
             else runConc c sched (ths[i := th']) (keepFirst firstErr e) w')
      else runConc c sched ths firstErr w)"

text \<open>
  \<open>Process\<close>. Beside the engine and the batch it takes what the Go run time decides: the
  order of the map iteration and, in concurrent mode, the schedule of the goroutines. It
  returns the error (\<open>None\<close> is \<open>nil\<close>) and the world as the call leaves it.
\<close>

definition Process ::
  "Combine \<Rightarrow> (aggregates \<Rightarrow> aggregates) \<Rightarrow> nat list \<Rightarrow> item list \<Rightarrow> world
     \<Rightarrow> error option \<times> world" where
  "Process c mapRange sched items w =
     (if length items = 0 then (None, w)
      else
        (case collectItems c (mem w) items [] of
           Inl e \<Rightarrow> (Some e, w)
         | Inr aggs \<Rightarrow>
             let tasks = buildTasks mapRange aggs in
             if concurrent c then runConc c sched (map Fresh tasks) None w
             else runTasks c tasks w))"

section \<open>Notions for stating the properties\<close>

text \<open>
  The struct an element stands for, whether an element is a record (a struct or a
  pointer to one), and the directives of a record: its fields whose tag parses, each
  with its index and the parsed tag, in the order of the fields.
\<close>

definition recordOf :: "store \<Rightarrow> item \<Rightarrow> rvalue" where
  "recordOf m it = derefIfPtr m (ValueOf it)"

definition isRecord :: "store \<Rightarrow> item \<Rightarrow> bool" where
  "isRecord m it = (Kind (recordOf m it) = KStruct)"

definition directivesFrom :: "nat \<Rightarrow> gfield list \<Rightarrow> (nat \<times> gfield \<times> tagSpec) list" where
  "directivesFrom fi fds =
     concat (map (\<lambda>(i, fd). case parseTag (f_tag fd) of
                               None \<Rightarrow> []
                             | Some spec \<Rightarrow> [(i, fd, spec)])
               (enumerate fi fds))"

definition directives :: "store \<Rightarrow> item \<Rightarrow> (nat \<times> gfield \<times> tagSpec) list" where
  "directives m it = directivesFrom 0 (fieldsOf m (recordOf m it))"

text \<open>
  The entry that a directive contributes to the task of its function, the entries of a
  batch in the order of discovery, and the entries grouped by function name.
\<close>

definition entryOf :: "rvalue \<Rightarrow> nat \<times> gfield \<times> tagSpec \<Rightarrow> string \<times> fieldRef" where
  "entryOf elem d =
     (case d of (fi, fd, spec) \<Rightarrow>
        (funcName spec,
         \<lparr>itemValue = elem, fieldIdx = fi, fieldVal = f_val fd, outputTgt = outputTarget spec\<rparr>))"

definition allEntries :: "store \<Rightarrow> item list \<Rightarrow> (string \<times> fieldRef) list" where
  "allEntries m items = concat (map (\<lambda>it. map (entryOf (ValueOf it)) (directives m it)) items)"

definition addEntries :: "aggregates \<Rightarrow> (string \<times> fieldRef) list \<Rightarrow> aggregates" where
  "addEntries aggs es = foldl (\<lambda>a (n, r). appendRef n r a) aggs es"

text \<open>Every field that carries a directive is exported.\<close>

definition directivesExported :: "store \<Rightarrow> item list \<Rightarrow> bool" where
  "directivesExported m items =
     list_all (\<lambda>it. list_all (\<lambda>(fi, fd, spec). f_exported fd) (directives m it)) items"



text \<open>
  The function names and the current field values of the directives of a batch, in the
  order of discovery, and the values collected for one function name: from all fields
  and all records, in that order.
\<close>

definition collected :: "store \<Rightarrow> item list \<Rightarrow> (string \<times> gval) list" where
  "collected m items =
     concat (map (\<lambda>it. map (\<lambda>(fi, fd, spec). (funcName spec, f_val fd)) (directives m it)) items)"

definition valuesFor :: "store \<Rightarrow> item list \<Rightarrow> string \<Rightarrow> gval list" where
  "valuesFor m items n = map snd (filter (\<lambda>(k, v). k = n) (collected m items))"

text \<open>
  The output target a directive resolves to when it names a field (the explicit target,
  or the tagged field's own name when the target is empty), whether a directive uses the
  \<open>fn:\<close> marker, and the names of the fields that the directives of the record at an
  address resolve to.
\<close>

definition targetOf :: "nat \<times> gfield \<times> tagSpec \<Rightarrow> string" where
  "targetOf d =
     (case d of (fi, fd, spec) \<Rightarrow>
        if outputTarget spec = [] then f_name fd else outputTarget spec)"

definition usesCallback :: "nat \<times> gfield \<times> tagSpec \<Rightarrow> bool" where
  "usesCallback d = (case d of (fi, fd, spec) \<Rightarrow> HasPrefix (outputTarget spec) ''fn:'')"

definition noCallbacks :: "store \<Rightarrow> item list \<Rightarrow> bool" where
  "noCallbacks m items = list_all (\<lambda>it. list_all (\<lambda>d. \<not> usesCallback d) (directives m it)) items"

definition targetsAt :: "store \<Rightarrow> item list \<Rightarrow> addr \<Rightarrow> string set" where
  "targetsAt m items a =
     (if Ptr a \<in> set items then targetOf ` set (directives m (Ptr a)) else {})"

text \<open>
  What can stop discovery, in the order of the batch and of the fields: an element that
  is not a record, and a directive whose function has no handler.
\<close>

definition directiveFailures :: "Combine \<Rightarrow> (nat \<times> gfield \<times> tagSpec) list \<Rightarrow> error list" where
  "directiveFailures c ds =
     concat (map (\<lambda>(fi, fd, spec).
                    if aggregateHandlers c (funcName spec) = None
                      then [HandlerNotRegistered (funcName spec)]
                    else [])
               ds)"

definition discoveryFailures :: "Combine \<Rightarrow> store \<Rightarrow> item list \<Rightarrow> error list" where
  "discoveryFailures c m items =
     concat (map (\<lambda>it. if \<not> isRecord m it then [ElemNotStruct]
                        else directiveFailures c (directives m it))
               items)"

text \<open>The outcome of discovery: the first failure if there is one, else the map built.\<close>

definition discovered :: "error list \<Rightarrow> aggregates \<Rightarrow> error + aggregates" where
  "discovered fs aggs = (case fs of [] \<Rightarrow> Inr aggs | e # es \<Rightarrow> Inl e)"

text \<open>
  An order of map iteration only permutes the entries. The references that a goroutine
  has still to handle.
\<close>

definition mapOrder :: "(aggregates \<Rightarrow> aggregates) \<Rightarrow> bool" where
  "mapOrder mapRange = (\<forall>aggs. mset (mapRange aggs) = mset aggs)"

fun threadRefs :: "thread \<Rightarrow> fieldRef set" where
  "threadRefs (Fresh task) = set (t_refs task)"
| "threadRefs (Running result todo) = snd ` set todo"
| "threadRefs Finished = {}"

text \<open>
  What binding one entry does to the world, told apart from whether it is done: an
  operation is a field set or a method called, and \<open>planRef\<close> follows \<open>bindRef\<close> up to
  the point where the world would change. It reads the store for the structure of the
  records only (names, types, methods), never for field values.
\<close>

datatype op = OpSet addr string gval | OpCall addr method1 gval

fun applyOp :: "op \<Rightarrow> world \<Rightarrow> world" where
  "applyOp (OpSet a n v) w = SetValue (StructAt a) n v w"
| "applyOp (OpCall a md v) w = Call (PtrV a) md v w"

definition planField :: "rvalue \<Rightarrow> gfield option \<Rightarrow> string \<Rightarrow> gval \<Rightarrow> error + op" where
  "planField structVal found fieldName value =
     (case structVal of
        StructAt a \<Rightarrow>
          (case found of
             None \<Rightarrow> Inl (CannotSetField fieldName)
           | Some fv \<Rightarrow>
               if \<not> f_exported fv then Inl (CannotSetField fieldName)
               else
                 (case typeOf value of
                    None \<Rightarrow> Inr (OpSet a fieldName (Zero (f_type fv)))
                  | Some t \<Rightarrow>
                      if AssignableTo t (f_type fv) then Inr (OpSet a fieldName value)
                      else if ConvertibleTo t (f_type fv)
                        then Inr (OpSet a fieldName (Convert value (f_type fv)))
                      else Inl (CannotAssign t fieldName (f_type fv))))
      | StructCopy s \<Rightarrow> Inl (CannotSetField fieldName)
      | _ \<Rightarrow> Inl SetFieldTargetNotStruct)"

definition planSet :: "store \<Rightarrow> rvalue \<Rightarrow> string \<Rightarrow> gval \<Rightarrow> error + op" where
  "planSet m structVal0 fieldName value =
     (let structVal = (if Kind structVal0 \<noteq> KStruct then derefIfPtr m structVal0
                       else structVal0)
      in planField structVal (FieldByName m structVal fieldName) fieldName value)"

definition planCall :: "store \<Rightarrow> rvalue \<Rightarrow> string \<Rightarrow> gval \<Rightarrow> error + op" where
  "planCall m item method arg =
     (case (if Kind item = KPtr then Some item
            else if CanAddr item then Some (Addr item)
            else None) of
        None \<Rightarrow> Inl ReceiverNotAddressable
      | Some recv \<Rightarrow>
          (case MethodByName m recv method of
             None \<Rightarrow> Inl (MethodNotFound method)
           | Some md \<Rightarrow>
               if length (m_in md) \<noteq> 1 then Inl (MethodArity method)
               else
                 (case recv of
                    PtrV a \<Rightarrow>
                      (case typeOf arg of
                         None \<Rightarrow> Inr (OpCall a md (Zero (m_in md ! 0)))
                       | Some t \<Rightarrow>
                           if AssignableTo t (m_in md ! 0) then Inr (OpCall a md arg)
                           else if ConvertibleTo t (m_in md ! 0)
                             then Inr (OpCall a md (Convert arg (m_in md ! 0)))
                           else Inl (ArgNotAssignable t (m_in md ! 0)))
                  | _ \<Rightarrow> Inl (MethodNotFound method))))"

definition planRef :: "store \<Rightarrow> resultMap \<Rightarrow> nat \<Rightarrow> fieldRef \<Rightarrow> error + op" where
  "planRef m result idx ref =
     (case resolveOut result idx ref of
        Inl p \<Rightarrow> Inl (RuntimePanic p)
      | Inr out \<Rightarrow>
          if outputTgt ref = [] \<or> \<not> HasPrefix (outputTgt ref) ''fn:'' then
            (case (if outputTgt ref = [] then refNameByIndex m (itemValue ref) (fieldIdx ref)
                   else Inr (outputTgt ref)) of
               Inl p \<Rightarrow> Inl (RuntimePanic p)
             | Inr targetName \<Rightarrow> planSet m (derefIfPtr m (itemValue ref)) targetName out)
          else planCall m (itemValue ref) (TrimPrefix (outputTgt ref) ''fn:'') out)"

text \<open>
  The structure of a record is the record with its field values blanked; two stores have
  the same shape when they hold records of the same structure at the same addresses.
\<close>

definition blank :: "gfield \<Rightarrow> gfield" where
  "blank fd = fd\<lparr>f_val := VNil\<rparr>"

definition shapeOf :: "gstruct \<Rightarrow> gstruct" where
  "shapeOf s = s\<lparr>s_fields := map blank (s_fields s)\<rparr>"

definition sameShape :: "store \<Rightarrow> store \<Rightarrow> bool" where
  "sameShape m m' = (\<forall>a. map_option shapeOf (m a) = map_option shapeOf (m' a))"

text \<open>
  A property \<open>P\<close> of worlds and a property \<open>Q\<close> of errors are kept by the steps of a run
  over the references \<open>R\<close>: logging a handler call keeps \<open>P\<close>, and binding an entry keeps
  \<open>P\<close> and fails with errors in \<open>Q\<close> only. A goroutine is ready when the handler of its
  task, if it has not been called yet, is registered.
\<close>

definition kept ::
  "Combine \<Rightarrow> fieldRef set \<Rightarrow> (world \<Rightarrow> bool) \<Rightarrow> (error \<Rightarrow> bool) \<Rightarrow> bool" where
  "kept c R P Q =
     ((\<forall>w n vs. P w \<longrightarrow> P (w\<lparr>log := log w @ [EvHandle n vs (combineCtx c)]\<rparr>))
      \<and> (\<forall>res idx ref w e w'. ref \<in> R \<longrightarrow> P w \<longrightarrow> bindRef res idx ref w = (e, w')
            \<longrightarrow> P w' \<and> (\<forall>err. e = Some err \<longrightarrow> Q err)))"

definition hasHandler :: "Combine \<Rightarrow> aggTask \<Rightarrow> bool" where
  "hasHandler c task = (aggregateHandlers c (t_name task) \<noteq> None)"

fun ready :: "Combine \<Rightarrow> thread \<Rightarrow> bool" where
  "ready c (Fresh task) = hasHandler c task"
| "ready c th = True"

text \<open>
  The world \<open>w1\<close> has the records of \<open>w\<close>, changed at most in the fields that the
  directives of the batch resolve to.
\<close>

definition framed :: "world \<Rightarrow> item list \<Rightarrow> world \<Rightarrow> bool" where
  "framed w items w1 =
     (sameShape (mem w) (mem w1)
      \<and> (\<forall>a s s1 i. mem w a = Some s \<longrightarrow> mem w1 a = Some s1 \<longrightarrow> i < length (s_fields s) \<longrightarrow>
            f_name (s_fields s ! i) \<notin> targetsAt (mem w) items a \<longrightarrow>
            s_fields s1 ! i = s_fields s ! i))"

text \<open>
  The handler calls in a log, the call that a task logs, and what a goroutine has still
  to do: the handler call it has not made yet, and the number of entries it has not
  bound yet.
\<close>

fun isHandle :: "event \<Rightarrow> bool" where
  "isHandle (EvHandle n vs cx) = True"
| "isHandle ev = False"

definition handleOf :: "Combine \<Rightarrow> aggTask \<Rightarrow> event" where
  "handleOf c task = EvHandle (t_name task) (t_values task) (combineCtx c)"

fun pendingHandles :: "Combine \<Rightarrow> thread \<Rightarrow> event list" where
  "pendingHandles c (Fresh task) = [handleOf c task]"
| "pendingHandles c th = []"

fun pendingBinds :: "thread \<Rightarrow> nat" where
  "pendingBinds (Fresh task) = length (t_refs task)"
| "pendingBinds (Running result todo) = length todo"
| "pendingBinds Finished = 0"

text \<open>
  The handler calls of a log as a multiset, the number of its other events (fields set
  and methods called), and the same for what a list of goroutines has still to do.
\<close>

definition handles :: "event list \<Rightarrow> event multiset" where
  "handles evs = mset (filter isHandle evs)"

definition binds :: "event list \<Rightarrow> nat" where
  "binds evs = length (filter (\<lambda>ev. \<not> isHandle ev) evs)"

definition allHandles :: "Combine \<Rightarrow> thread list \<Rightarrow> event multiset" where
  "allHandles c ths = mset (concat (map (pendingHandles c) ths))"

definition allBinds :: "thread list \<Rightarrow> nat" where
  "allBinds ths = sum_list (map pendingBinds ths)"

text \<open>
  A batch of plain struct values, and the error that binding the entry of a directive of
  such a value runs into.
\<close>

definition byValue :: "item list \<Rightarrow> bool" where
  "byValue items = list_all (\<lambda>it. case it of StructVal s \<Rightarrow> True | _ \<Rightarrow> False) items"

definition byValueError :: "nat \<times> gfield \<times> tagSpec \<Rightarrow> error" where
  "byValueError d =
     (if usesCallback d then ReceiverNotAddressable else CannotSetField (targetOf d))"

text \<open>
  The world \<open>w1\<close> is \<open>w\<close> with nothing but handler calls added to the log; an error
  that binding an entry of a batch of struct values fails with.
\<close>

definition untouched :: "world \<Rightarrow> world \<Rightarrow> bool" where
  "untouched w w1 = (mem w1 = mem w \<and> (\<exists>evs. log w1 = log w @ evs \<and> list_all isHandle evs))"

definition byValueFailure :: "store \<Rightarrow> item list \<Rightarrow> error \<Rightarrow> bool" where
  "byValueFailure m items err =
     (err = RuntimePanic UnhashableKey
      \<or> (\<exists>it\<in>set items. \<exists>d\<in>set (directives m it). err = byValueError d))"

text \<open>The references that the map \<open>aggregates\<close> holds for a name.\<close>

definition refsOf :: "aggregates \<Rightarrow> string \<Rightarrow> fieldRef list" where
  "refsOf aggs n = (case map_of aggs n of None \<Rightarrow> [] | Some rs \<Rightarrow> rs)"

text \<open>
  A relation \<open>Rel\<close> between the worlds of two runs is kept by the steps over the references
  \<open>R\<close>: by logging the same handler call in both, and by binding the same entry in both,
  which then ends the same way in both.
\<close>

definition keptBoth :: "Combine \<Rightarrow> fieldRef set \<Rightarrow> (world \<Rightarrow> world \<Rightarrow> bool) \<Rightarrow> bool" where
  "keptBoth c R Rel =
     ((\<forall>u v n vs. Rel u v \<longrightarrow>
          Rel (u\<lparr>log := log u @ [EvHandle n vs (combineCtx c)]\<rparr>)
              (v\<lparr>log := log v @ [EvHandle n vs (combineCtx c)]\<rparr>))
      \<and> (\<forall>res idx ref u v e u'. ref \<in> R \<longrightarrow> Rel u v \<longrightarrow> bindRef res idx ref u = (e, u')
            \<longrightarrow> (\<exists>v'. bindRef res idx ref v = (e, v') \<and> Rel u' v')))"

text \<open>
  No directive of the batch resolves to a field, of the record it stands in, that carries
  a directive itself: what a run writes is not what a later run reads.
\<close>

definition targetsUntagged :: "store \<Rightarrow> item list \<Rightarrow> bool" where
  "targetsUntagged m items =
     list_all (\<lambda>it. list_all (\<lambda>d. f_name (fst (snd d)) \<notin> targetOf ` set (directives m it))
                       (directives m it)) items"

text \<open>
  The worlds \<open>u\<close> and \<open>v\<close> of two runs, the second of which started in \<open>w1\<close>: they hold the
  same records, and each field of \<open>v\<close> either has the value it has in \<open>u\<close> or still the value
  it had in \<open>w1\<close>.
\<close>

definition settled :: "world \<Rightarrow> world \<Rightarrow> world \<Rightarrow> bool" where
  "settled w1 u v =
     (sameShape (mem u) (mem v)
      \<and> (\<forall>a su sv s1 i. mem u a = Some su \<longrightarrow> mem v a = Some sv \<longrightarrow> mem w1 a = Some s1 \<longrightarrow>
            i < length (s_fields sv) \<longrightarrow>
            s_fields sv ! i = s_fields su ! i \<or> s_fields sv ! i = s_fields s1 ! i))"

text \<open>
  What an operation does to the store, and a list of operations done one after the other.
  Two field writes are apart when they go to different records or to fields of different
  names.
\<close>

definition memOp :: "op \<Rightarrow> store \<Rightarrow> store" where
  "memOp x m = mem (applyOp x \<lparr>mem = m, log = []\<rparr>)"

definition memOps :: "op list \<Rightarrow> store \<Rightarrow> store" where
  "memOps xs m = foldl (\<lambda>m' x. memOp x m') m xs"

fun apartOps :: "op \<Rightarrow> op \<Rightarrow> bool" where
  "apartOps (OpSet a n v) (OpSet b n' v') = (a \<noteq> b \<or> n \<noteq> n')"
| "apartOps x y = False"

text \<open>
  What a goroutine has still to do, entry by entry: the operation that binding the entry
  comes to, or the error it fails with.
\<close>

definition planRefs :: "store \<Rightarrow> resultMap \<Rightarrow> (nat \<times> fieldRef) list \<Rightarrow> (error + op) list" where
  "planRefs m result todo = map (\<lambda>(idx, ref). planRef m result idx ref) todo"

fun pending :: "Combine \<Rightarrow> store \<Rightarrow> thread \<Rightarrow> (error + op) list" where
  "pending c m (Fresh task) =
     (case aggregateHandlers c (t_name task) of
        None \<Rightarrow> [Inl (AggHandlerNotFound (t_name task))]
      | Some h \<Rightarrow> planRefs m (h (t_values task) (combineCtx c)) (enumerate 0 (t_refs task)))"
| "pending c m (Running result todo) = planRefs m result todo"
| "pending c m Finished = []"

definition allOk :: "(error + op) list \<Rightarrow> bool" where
  "allOk ps = list_all (\<lambda>p. \<not> isl p) ps"

definition opsOf :: "(error + op) list \<Rightarrow> op list" where
  "opsOf ps = map projr ps"

text \<open>
  The field an entry is bound to: the address of its record and the name its output
  target resolves to. The tasks of a batch are apart when entries of different function
  names are bound to different fields.
\<close>

fun addrOf :: "rvalue \<Rightarrow> addr option" where
  "addrOf (PtrV a) = Some a"
| "addrOf (StructAt a) = Some a"
| "addrOf v = None"

definition refTarget :: "store \<Rightarrow> fieldRef \<Rightarrow> addr option \<times> string" where
  "refTarget m ref =
     (addrOf (itemValue ref),
      if outputTgt ref = [] then
        (case refNameByIndex m (itemValue ref) (fieldIdx ref) of Inl p \<Rightarrow> [] | Inr n \<Rightarrow> n)
      else outputTgt ref)"

definition tasksApart :: "store \<Rightarrow> item list \<Rightarrow> bool" where
  "tasksApart m items =
     list_all (\<lambda>(n1, r1). list_all (\<lambda>(n2, r2). n1 \<noteq> n2 \<longrightarrow> refTarget m r1 \<noteq> refTarget m r2)
                             (allEntries m items))
       (allEntries m items)"

text \<open>
  Goroutines are apart when the operations that two of them have still to do are apart.
\<close>

definition threadsApart :: "Combine \<Rightarrow> store \<Rightarrow> thread list \<Rightarrow> bool" where
  "threadsApart c m ths =
     (\<forall>i j. i < length ths \<longrightarrow> j < length ths \<longrightarrow> i \<noteq> j \<longrightarrow>
        (\<forall>x\<in>set (opsOf (pending c m (ths ! i))).
           \<forall>y\<in>set (opsOf (pending c m (ths ! j))). apartOps x y))"






text \<open>The references held in the map \<open>aggregates\<close>.\<close>

definition refsIn :: "aggregates \<Rightarrow> fieldRef set" where
  "refsIn aggs = (\<Union>(n, rs)\<in>set aggs. set rs)"

text \<open>The part of the log that a call added.\<close>

definition newLog :: "world \<Rightarrow> world \<Rightarrow> event list" where
  "newLog w w' = drop (length (log w)) (log w')"

section \<open>Example records\<close>

text \<open>Small records and engines on which the properties below are exercised.\<close>

definition mkField :: "string \<Rightarrow> string \<Rightarrow> gtype \<Rightarrow> gval \<Rightarrow> gfield" where
  "mkField n t ty v = \<lparr>f_name = n, f_tag = t, f_type = ty, f_exported = True, f_val = v\<rparr>"

text \<open>A struct with the one field \<open>A int\<close>, holding 1, tagged \<open>t\<close>; a world with it at address 0.\<close>

definition recA :: "string \<Rightarrow> gstruct" where
  "recA t = \<lparr>s_fields = [mkField ''A'' t TInt (VInt 1)], s_methods = []\<rparr>"

definition worldA :: "string \<Rightarrow> world" where
  "worldA t = \<lparr>mem = [0 \<mapsto> recA t], log = []\<rparr>"

text \<open>
  A struct with the fields \<open>A int\<close> (tagged \<open>t\<close>), \<open>B int\<close> and \<open>C string\<close>; a world with it at
  address 0; a handler that answers 7 at position 0; an engine with that handler
  registered as \<open>f\<close>.
\<close>

definition recB :: "string \<Rightarrow> gstruct" where
  "recB t =
     \<lparr>s_fields = [mkField ''A'' t TInt (VInt 1), mkField ''B'' [] TInt (VInt 2),
                  mkField ''C'' [] TString (VStr ''c'')],
      s_methods = []\<rparr>"

definition worldB :: "string \<Rightarrow> world" where
  "worldB t = \<lparr>mem = [0 \<mapsto> recB t], log = []\<rparr>"

definition hSeven :: handler where
  "hSeven vs cx = [VInt 0 \<mapsto> VInt 7]"

definition engF :: Combine where
  "engF = Register ''f'' hSeven (New [])"

text \<open>
  A struct with two directives for the same function: \<open>A int\<close> routed to the method \<open>M\<close>
  and \<open>B int\<close> routed to the field \<open>B\<close>.
\<close>

definition recM :: gstruct where
  "recM =
     \<lparr>s_fields = [mkField ''A'' ''f,fn:M'' TInt (VInt 1), mkField ''B'' ''f,B'' TInt (VInt 2)],
      s_methods = []\<rparr>"

text \<open>The world with no record in the store and an empty log.\<close>

definition world0 :: world where
  "world0 = \<lparr>mem = Map.empty, log = []\<rparr>"

text \<open>
  A handler that returns an empty result map, and an engine with it registered as \<open>g\<close>.
  A struct with the one field \<open>S []string\<close>, tagged \<open>g\<close>, and a world with it at address 0.
\<close>

definition hNone :: handler where
  "hNone vs cx = Map.empty"

definition engG :: Combine where
  "engG = Register ''g'' hNone (New [])"

definition recS :: gstruct where
  "recS = \<lparr>s_fields = [mkField ''S'' ''g'' TStrs (VStrs [''a''])], s_methods = []\<rparr>"

definition worldS :: world where
  "worldS = \<lparr>mem = [0 \<mapsto> recS], log = []\<rparr>"

text \<open>
  An engine with \<open>f\<close> and \<open>g\<close> registered; a struct whose first field \<open>A\<close> is tagged \<open>f\<close> and
  whose second field \<open>B\<close> is tagged \<open>g\<close>; a world with it at address 0.
\<close>

definition engFG :: Combine where
  "engFG = Register ''g'' hNone engF"

definition recFG :: gstruct where
  "recFG =
     \<lparr>s_fields = [mkField ''A'' ''f'' TInt (VInt 1), mkField ''B'' ''g'' TInt (VInt 2)],
      s_methods = []\<rparr>"


text \<open>
  A struct whose first field \<open>A\<close> is tagged to route the result of \<open>f\<close> to a field \<open>Nope\<close> that
  it does not have, and whose second field \<open>B\<close> is tagged \<open>g\<close>; a world with it at address 0.
\<close>

definition recN :: gstruct where
  "recN =
     \<lparr>s_fields = [mkField ''A'' ''f,Nope'' TInt (VInt 1), mkField ''B'' ''g'' TInt (VInt 2)],
      s_methods = []\<rparr>"

definition worldN :: world where
  "worldN = \<lparr>mem = [0 \<mapsto> recN], log = []\<rparr>"

text \<open>A world with two records of the struct tagged \<open>f\<close> and \<open>g\<close>, at the addresses 0 and 2.\<close>

definition worldFG2 :: world where
  "worldFG2 = \<lparr>mem = [0 \<mapsto> recFG, 2 \<mapsto> recFG], log = []\<rparr>"

text \<open>
  A handler that answers, at position 0, the only value it is given plus one, and an
  engine with it registered as \<open>inc\<close>.
\<close>

definition hInc :: handler where
  "hInc vs cx = (case vs of [VInt i] \<Rightarrow> [VInt 0 \<mapsto> VInt (i + 1)] | _ \<Rightarrow> Map.empty)"

definition engInc :: Combine where
  "engInc = Register ''inc'' hInc (New [])"







section \<open>Properties of the metadata parser\<close>

lemma Split_unfold:
  "Split s sep =
     takeWhile (\<lambda>c. c \<noteq> sep) s #
       (case dropWhile (\<lambda>c. c \<noteq> sep) s of [] \<Rightarrow> [] | c # rest \<Rightarrow> Split rest sep)"
proof (induction s)
  case Nil
  show ?case by simp
next
  case (Cons c cs)
  show ?case
  proof (cases "c = sep")
    case True
    then show ?thesis by simp
  next
    case False
    then show ?thesis
      by (subst Split.simps, subst Cons.IH) simp
  qed
qed

lemma trimLeftBy_Nil: "trimLeftBy pats [] = []"
  by (subst trimLeftBy.simps) (auto simp: leadWidth_def find_Some_iff split: option.splits)

lemma TrimSpace_Nil: "TrimSpace [] = []"
  by (simp add: TrimSpace_def trimLeftBy_Nil)

lemma Split_second:
  "1 < length (Split s sep) \<Longrightarrow>
   Split s sep ! 1 = takeWhile (\<lambda>c. c \<noteq> sep) (drop 1 (dropWhile (\<lambda>c. c \<noteq> sep) s))"
  apply (subst (asm) Split_unfold)
  apply (subst Split_unfold)
  apply (cases "dropWhile (\<lambda>c. c \<noteq> sep) s")
   apply simp
  apply simp
  apply (subst Split_unfold)
  apply simp
  done

lemma Split_single:
  "\<not> 1 < length (Split s sep) \<Longrightarrow> dropWhile (\<lambda>c. c \<noteq> sep) s = []"
  apply (subst (asm) Split_unfold)
  apply (cases "dropWhile (\<lambda>c. c \<noteq> sep) s")
   apply simp
  apply simp
  apply (subst (asm) Split_unfold)
  apply simp
  done

text \<open>
  C5, as the code has it. \<open>parseTag\<close> fails exactly when the tag is empty or its first
  segment (the text before the first comma) is empty after trimming white space.
  Otherwise the function name is the trimmed first segment and the output target is the
  trimmed second segment, the text between the first comma and the second one: what
  follows a second comma is dropped.
\<close>

theorem parseTag_segments:
  "parseTag tag =
     (if tag = [] \<or> TrimSpace (takeWhile (\<lambda>c. c \<noteq> CHR '','') tag) = [] then None
      else Some \<lparr>funcName = TrimSpace (takeWhile (\<lambda>c. c \<noteq> CHR '','') tag),
                 outputTarget =
                   TrimSpace (takeWhile (\<lambda>c. c \<noteq> CHR '','')
                     (drop 1 (dropWhile (\<lambda>c. c \<noteq> CHR '','') tag)))\<rparr>)"
proof -
  have hd: "Split tag CHR '','' ! 0 = takeWhile (\<lambda>c. c \<noteq> CHR '','') tag"
    by (subst Split_unfold) simp
  have ne: "length (Split tag CHR '','') \<noteq> 0"
    by (subst Split_unfold) simp
  show ?thesis
  proof (cases "1 < length (Split tag CHR '','')")
    case True
    then show ?thesis
      using hd ne Split_second [OF True]
      by (simp add: parseTag_def Let_def)
  next
    case False
    have "takeWhile (\<lambda>c. c \<noteq> CHR '','')
            (drop 1 (dropWhile (\<lambda>c. c \<noteq> CHR '','') tag)) = []"
      by (subst Split_single [OF False]) simp
    with False show ?thesis
      using hd ne
      by (simp add: parseTag_def Let_def TrimSpace_Nil)
  qed
qed

text \<open>
  C5 as stated fails: for the tag \<open>f,a,b\<close> the output target is \<open>a\<close>, not the remainder
  \<open>a,b\<close> after the first comma.
\<close>

theorem parseTag_second_segment_only:
  "parseTag ''f,a,b'' = Some \<lparr>funcName = ''f'', outputTarget = ''a''\<rparr>
   \<and> outputTarget (the (parseTag ''f,a,b'')) \<noteq> ''a,b''"
  by code_simp

lemma parseTag_empty: "parseTag [] = None"
  by (simp add: parseTag_def)

section \<open>Properties of discovery\<close>

lemma directivesFrom_Nil [simp]: "directivesFrom fi [] = []"
  by (simp add: directivesFrom_def)

lemma directivesFrom_Cons:
  "directivesFrom fi (fd # fds) =
     (case parseTag (f_tag fd) of None \<Rightarrow> [] | Some spec \<Rightarrow> [(fi, fd, spec)])
       @ directivesFrom (Suc fi) fds"
  by (simp add: directivesFrom_def)

lemma discovered_simps [simp]:
  "discovered [] aggs = Inr aggs"
  "discovered (e # es) aggs = Inl e"
  by (simp_all add: discovered_def)

lemma addEntries_simps [simp]:
  "addEntries aggs [] = aggs"
  "addEntries aggs ((n, r) # es) = addEntries (appendRef n r aggs) es"
  "addEntries aggs (xs @ ys) = addEntries (addEntries aggs xs) ys"
  by (simp_all add: addEntries_def)

lemma directiveFailures_simps [simp]:
  "directiveFailures c [] = []"
  "directiveFailures c ((fi, fd, spec) # ds) =
     (if aggregateHandlers c (funcName spec) = None
        then HandlerNotRegistered (funcName spec) # directiveFailures c ds
      else directiveFailures c ds)"
  by (simp_all add: directiveFailures_def)

lemma collectFields_result:
  "list_all (\<lambda>(fi, fd, spec). f_exported fd) (directivesFrom fi fds) \<Longrightarrow>
   collectFields c elem fds fi aggs =
     discovered (directiveFailures c (directivesFrom fi fds))
       (addEntries aggs (map (entryOf elem) (directivesFrom fi fds)))"
proof (induction fds arbitrary: fi aggs)
  case Nil
  show ?case by simp
next
  case (Cons fd fds)
  show ?case
  proof (cases "parseTag (f_tag fd)")
    case None
    with Cons show ?thesis
      by (simp add: directivesFrom_Cons)
  next
    case (Some spec)
    with Cons.prems have ex: "f_exported fd"
      and rest: "list_all (\<lambda>(fi, fd, spec). f_exported fd) (directivesFrom (Suc fi) fds)"
      by (simp_all add: directivesFrom_Cons)
    show ?thesis
    proof (cases "aggregateHandlers c (funcName spec)")
      case None
      with Some ex show ?thesis
        by (simp add: directivesFrom_Cons)
    next
      case (Some h)
      with \<open>parseTag (f_tag fd) = Some spec\<close> ex Cons.IH [OF rest] show ?thesis
        by (simp add: directivesFrom_Cons entryOf_def)
    qed
  qed
qed

lemma discoveryFailures_simps [simp]:
  "discoveryFailures c m [] = []"
  "discoveryFailures c m (it # its) =
     (if \<not> isRecord m it then [ElemNotStruct] else directiveFailures c (directives m it))
       @ discoveryFailures c m its"
  by (simp_all add: discoveryFailures_def)

lemma allEntries_simps [simp]:
  "allEntries m [] = []"
  "allEntries m (it # its) = map (entryOf (ValueOf it)) (directives m it) @ allEntries m its"
  by (simp_all add: allEntries_def)

lemma collectItems_result:
  "directivesExported m items \<Longrightarrow>
   collectItems c m items aggs =
     discovered (discoveryFailures c m items) (addEntries aggs (allEntries m items))"
proof (induction items arbitrary: aggs)
  case Nil
  show ?case by simp
next
  case (Cons it its)
  from Cons.prems have ex: "list_all (\<lambda>(fi, fd, spec). f_exported fd) (directives m it)"
    and rest: "directivesExported m its"
    by (simp_all add: directivesExported_def)
  show ?case
  proof (cases "isRecord m it")
    case False
    then show ?thesis
      by (simp add: isRecord_def recordOf_def derefIfPtr_def Let_def)
  next
    case True
    have cf: "collectFields c (ValueOf it) (fieldsOf m (recordOf m it)) 0 aggs =
      discovered (directiveFailures c (directives m it))
        (addEntries aggs (map (entryOf (ValueOf it)) (directives m it)))"
      using collectFields_result [of 0 "fieldsOf m (recordOf m it)" c "ValueOf it" aggs] ex
      unfolding directives_def by simp
    have step: "collectItems c m (it # its) aggs =
      (case collectFields c (ValueOf it) (fieldsOf m (recordOf m it)) 0 aggs of
         Inl e \<Rightarrow> Inl e | Inr aggs' \<Rightarrow> collectItems c m its aggs')"
      using True by (simp add: isRecord_def recordOf_def derefIfPtr_def Let_def)
    show ?thesis
    proof (cases "directiveFailures c (directives m it)")
      case Nil
      with True show ?thesis
        unfolding step cf by (simp add: Cons.IH [OF rest])
    next
      case (Cons e es)
      with True show ?thesis
        unfolding step cf by simp
    qed
  qed
qed


lemma directiveFailures_sound:
  "e \<in> set (directiveFailures c ds) \<Longrightarrow>
   \<exists>fi fd spec. (fi, fd, spec) \<in> set ds \<and> aggregateHandlers c (funcName spec) = None
      \<and> e = HandlerNotRegistered (funcName spec)"
  by (fastforce simp: directiveFailures_def split: if_splits)

lemma directiveFailures_complete:
  "(fi, fd, spec) \<in> set ds \<Longrightarrow> aggregateHandlers c (funcName spec) = None \<Longrightarrow>
   HandlerNotRegistered (funcName spec) \<in> set (directiveFailures c ds)"
  by (fastforce simp: directiveFailures_def split: if_splits)

lemma discoveryFailures_set:
  "set (discoveryFailures c m items) =
     (\<Union>it\<in>set items. if \<not> isRecord m it then {ElemNotStruct}
                        else set (directiveFailures c (directives m it)))"
  by (induction items) auto

lemma directives_nonrecord: "\<not> isRecord m it \<Longrightarrow> directives m it = []"
  by (cases "recordOf m it") (simp_all add: directives_def isRecord_def)

text \<open>
  C1, as the code has it. When the batch holds a field whose parsed directive names a
  function with no handler (and the fields that carry directives are exported), discovery
  fails: \<open>Process\<close> returns the first failure in the order of the batch and of the fields,
  and leaves the world as it was: no field written, no handler invoked, no output method
  called. The first failure is the error for an element that is not a record if one
  comes before the field; when every element is a record it is the error that names a
  function of the batch without a handler.
\<close>

theorem Process_unregistered_stops_discovery:
  assumes it: "it \<in> set items"
    and d: "(fi, fd, spec) \<in> set (directives (mem w) it)"
    and un: "aggregateHandlers c (funcName spec) = None"
    and ex: "directivesExported (mem w) items"
  shows "\<exists>e es. discoveryFailures c (mem w) items = e # es
           \<and> Process c mapRange sched items w = (Some e, w)
           \<and> (list_all (isRecord (mem w)) items \<longrightarrow>
                (\<exists>it' fi' fd' spec'. it' \<in> set items
                   \<and> (fi', fd', spec') \<in> set (directives (mem w) it')
                   \<and> aggregateHandlers c (funcName spec') = None
                   \<and> e = HandlerNotRegistered (funcName spec')))"
proof -
  from d have rec: "isRecord (mem w) it"
    using directives_nonrecord by fastforce
  have "HandlerNotRegistered (funcName spec) \<in> set (discoveryFailures c (mem w) items)"
    unfolding discoveryFailures_set
    using it rec directiveFailures_complete [OF d un] by auto
  then obtain e es where fs: "discoveryFailures c (mem w) items = e # es"
    by (cases "discoveryFailures c (mem w) items") auto
  from it have ne: "items \<noteq> []" by auto
  have run: "Process c mapRange sched items w = (Some e, w)"
    using ne fs by (simp add: Process_def collectItems_result [OF ex])
  have named: "\<exists>it' fi' fd' spec'. it' \<in> set items
                   \<and> (fi', fd', spec') \<in> set (directives (mem w) it')
                   \<and> aggregateHandlers c (funcName spec') = None
                   \<and> e = HandlerNotRegistered (funcName spec')"
    if recs: "list_all (isRecord (mem w)) items"
  proof -
    have "e \<in> set (discoveryFailures c (mem w) items)"
      using fs by simp
    then obtain it' where it': "it' \<in> set items"
      and e: "e \<in> set (directiveFailures c (directives (mem w) it'))"
      unfolding discoveryFailures_set using recs
      by (auto simp: list_all_iff split: if_splits)
    from directiveFailures_sound [OF e] it' show ?thesis by blast
  qed
  from fs run named show ?thesis by blast
qed


lemma parseTag_nope: "parseTag ''nope'' = Some \<lparr>funcName = ''nope'', outputTarget = []\<rparr>"
  by code_simp

lemma directives_worldA_nope:
  "directives (mem (worldA ''nope'')) (Ptr 0) =
     [(0, mkField ''A'' ''nope'' TInt (VInt 1), \<lparr>funcName = ''nope'', outputTarget = []\<rparr>)]"
  by (simp add: directives_def directivesFrom_def recordOf_def derefIfPtr_def worldA_def recA_def
      mkField_def parseTag_nope)

text \<open>
  C1 as stated fails: with an element that is not a record in front of the record whose
  directive names the missing function, the error returned is the one for the element.
\<close>

theorem Process_unregistered_after_nonrecord:
  "(0, mkField ''A'' ''nope'' TInt (VInt 1), \<lparr>funcName = ''nope'', outputTarget = []\<rparr>)
      \<in> set (directives (mem (worldA ''nope'')) (Ptr 0))
   \<and> aggregateHandlers (New []) ''nope'' = None
   \<and> Process (New []) id [] [Other, Ptr 0] (worldA ''nope'') = (Some ElemNotStruct, worldA ''nope'')"
  by (simp add: directives_worldA_nope New_def Process_def)

theorem Process_unregistered_stops_discovery_witness:
  "Ptr 0 \<in> set [Ptr 0]
   \<and> (0, mkField ''A'' ''nope'' TInt (VInt 1), \<lparr>funcName = ''nope'', outputTarget = []\<rparr>)
        \<in> set (directives (mem (worldA ''nope'')) (Ptr 0))
   \<and> aggregateHandlers (New []) ''nope'' = None
   \<and> directivesExported (mem (worldA ''nope'')) [Ptr 0]
   \<and> list_all (isRecord (mem (worldA ''nope''))) [Ptr 0]
   \<and> Process (New []) id [] [Ptr 0] (worldA ''nope'')
        = (Some (HandlerNotRegistered ''nope''), worldA ''nope'')"
proof -
  have it: "Ptr 0 \<in> set [Ptr 0]" by simp
  have d: "(0, mkField ''A'' ''nope'' TInt (VInt 1), \<lparr>funcName = ''nope'', outputTarget = []\<rparr>)
        \<in> set (directives (mem (worldA ''nope'')) (Ptr 0))"
    by (simp add: directives_worldA_nope)
  have un: "aggregateHandlers (New []) (funcName \<lparr>funcName = ''nope'', outputTarget = []\<rparr>) = None"
    by (simp add: New_def)
  have ex: "directivesExported (mem (worldA ''nope'')) [Ptr 0]"
    by (simp add: directivesExported_def directives_worldA_nope mkField_def)
  have recs: "list_all (isRecord (mem (worldA ''nope''))) [Ptr 0]"
    by (simp add: isRecord_def recordOf_def derefIfPtr_def worldA_def)
  have fs: "discoveryFailures (New []) (mem (worldA ''nope'')) [Ptr 0]
              = [HandlerNotRegistered ''nope'']"
    using recs by (simp add: directives_worldA_nope New_def)
  from Process_unregistered_stops_discovery [OF it d un ex, of id "[]"] fs
  have "Process (New []) id [] [Ptr 0] (worldA ''nope'')
        = (Some (HandlerNotRegistered ''nope''), worldA ''nope'')"
    by auto
  with it d un ex recs show ?thesis by simp
qed

text \<open>
  C10. On the empty batch \<open>Process\<close> returns success at once, whatever handlers are
  registered, in either mode: the store is as it was and nothing was logged (no handler
  invoked, no field set, no method called).
\<close>

theorem Process_empty_batch: "Process c mapRange sched [] w = (None, w)"
  by (simp add: Process_def)

section \<open>What discovery collects\<close>

lemma collectFields_Inr:
  "collectFields c elem fds fi aggs = Inr aggs' \<Longrightarrow>
   aggs' = addEntries aggs (map (entryOf elem) (directivesFrom fi fds))"
proof (induction fds arbitrary: fi aggs)
  case Nil
  then show ?case by simp
next
  case (Cons fd fds)
  show ?case
  proof (cases "parseTag (f_tag fd)")
    case None
    with Cons show ?thesis
      by (simp add: directivesFrom_Cons)
  next
    case (Some spec)
    with Cons.prems obtain h where h: "aggregateHandlers c (funcName spec) = Some h"
      and ex: "f_exported fd"
      by (auto split: if_splits option.splits)
    from Cons.prems Some h ex
    have "collectFields c elem fds (Suc fi)
            (appendRef (funcName spec)
               \<lparr>itemValue = elem, fieldIdx = fi, fieldVal = f_val fd,
                  outputTgt = outputTarget spec\<rparr> aggs) = Inr aggs'"
      by simp
    from Cons.IH [OF this] Some show ?thesis
      by (simp add: directivesFrom_Cons entryOf_def)
  qed
qed

lemma collectItems_Inr:
  "collectItems c m items aggs = Inr aggs' \<Longrightarrow> aggs' = addEntries aggs (allEntries m items)"
proof (induction items arbitrary: aggs)
  case Nil
  then show ?case by simp
next
  case (Cons it its)
  from Cons.prems obtain aggs1 where
    cf: "collectFields c (ValueOf it) (fieldsOf m (recordOf m it)) 0 aggs = Inr aggs1"
    and rest: "collectItems c m its aggs1 = Inr aggs'"
    by (auto simp: Let_def recordOf_def derefIfPtr_def split: if_splits sum.splits)
  from collectFields_Inr [OF cf] Cons.IH [OF rest] show ?case
    by (simp add: directives_def)
qed

lemma refsIn_simps [simp]:
  "refsIn [] = {}"
  "refsIn ((n, rs) # aggs) = set rs \<union> refsIn aggs"
  by (simp_all add: refsIn_def)

lemma refsIn_appendRef: "refsIn (appendRef n r aggs) = insert r (refsIn aggs)"
proof (induction aggs)
  case Nil
  show ?case by simp
next
  case (Cons x aggs)
  obtain k rs where x: "x = (k, rs)" by (cases x)
  show ?case
    unfolding x using Cons.IH by (cases "k = n") auto
qed

lemma refsIn_addEntries: "refsIn (addEntries aggs es) = refsIn aggs \<union> snd ` set es"
proof (induction es arbitrary: aggs)
  case Nil
  show ?case by simp
next
  case (Cons x es)
  obtain n r where x: "x = (n, r)" by (cases x)
  show ?case
    unfolding x by (simp add: Cons.IH refsIn_appendRef)
qed

section \<open>Invariants of a run\<close>

lemma keptD_handle:
  "kept c R P Q \<Longrightarrow> P w \<Longrightarrow> P (w\<lparr>log := log w @ [EvHandle n vs (combineCtx c)]\<rparr>)"
  by (simp add: kept_def)

lemma keptD_bind:
  "kept c R P Q \<Longrightarrow> ref \<in> R \<Longrightarrow> P w \<Longrightarrow> bindRef res idx ref w = (e, w') \<Longrightarrow>
   P w' \<and> (\<forall>err. e = Some err \<longrightarrow> Q err)"
  unfolding kept_def by blast

lemma bindRefs_kept:
  assumes k: "kept c R P Q"
  shows "snd ` set todo \<subseteq> R \<Longrightarrow> P w \<Longrightarrow> bindRefs result todo w = (e, w') \<Longrightarrow>
         P w' \<and> (\<forall>err. e = Some err \<longrightarrow> Q err)"
proof (induction todo arbitrary: w)
  case Nil
  then show ?case by simp
next
  case (Cons x todo)
  obtain idx ref where x: "x = (idx, ref)" by (cases x)
  obtain e1 w1 where b: "bindRef result idx ref w = (e1, w1)" by (cases "bindRef result idx ref w")
  from Cons.prems x have "ref \<in> R" by auto
  from keptD_bind [OF k this Cons.prems(2) b]
  have P1: "P w1" and Q1: "\<forall>err. e1 = Some err \<longrightarrow> Q err" by simp_all
  show ?case
  proof (cases e1)
    case None
    with Cons.prems(3) x b have r: "bindRefs result todo w1 = (e, w')" by simp
    from Cons.prems(1) have "snd ` set todo \<subseteq> R" by auto
    from Cons.IH [OF this P1 r] show ?thesis .
  next
    case (Some e0)
    with Cons.prems(3) x b have "w' = w1" "e = e1" by simp_all
    with P1 Q1 show ?thesis by simp
  qed
qed

lemma snd_enumerate: "snd ` set (enumerate n xs) = set xs"
  by (induction xs arbitrary: n) auto

lemma runTask_kept:
  assumes k: "kept c R P Q"
    and refs: "set (t_refs task) \<subseteq> R"
    and hh: "hasHandler c task"
    and P: "P w"
    and run: "runTask c task w = (e, w')"
  shows "P w' \<and> (\<forall>err. e = Some err \<longrightarrow> Q err)"
proof -
  from hh obtain h where "aggregateHandlers c (t_name task) = Some h"
    by (auto simp: hasHandler_def)
  with run have b: "bindRefs (h (t_values task) (combineCtx c)) (enumerate 0 (t_refs task))
            (w\<lparr>log := log w @ [EvHandle (t_name task) (t_values task) (combineCtx c)]\<rparr>) = (e, w')"
    by (simp add: runTask_def)
  from refs have r: "snd ` set (enumerate 0 (t_refs task)) \<subseteq> R"
    by (simp add: snd_enumerate)
  from bindRefs_kept [OF k r keptD_handle [OF k P] b] show ?thesis .
qed

lemma runTasks_kept:
  assumes k: "kept c R P Q"
  shows "(\<Union>t\<in>set tasks. set (t_refs t)) \<subseteq> R \<Longrightarrow> list_all (hasHandler c) tasks \<Longrightarrow> P w \<Longrightarrow>
         runTasks c tasks w = (e, w') \<Longrightarrow> P w' \<and> (\<forall>err. e = Some err \<longrightarrow> Q err)"
proof (induction tasks arbitrary: w)
  case Nil
  then show ?case by simp
next
  case (Cons task tasks)
  obtain e1 w1 where r: "runTask c task w = (e1, w1)" by (cases "runTask c task w")
  from Cons.prems(1) have "set (t_refs task) \<subseteq> R" by simp
  moreover from Cons.prems(2) have "hasHandler c task" by simp
  ultimately have "P w1 \<and> (\<forall>err. e1 = Some err \<longrightarrow> Q err)"
    using Cons.prems(3) r by (rule runTask_kept [OF k])
  then have P1: "P w1" and Q1: "\<forall>err. e1 = Some err \<longrightarrow> Q err" by simp_all
  show ?case
  proof (cases e1)
    case None
    with Cons.prems(4) r have r2: "runTasks c tasks w1 = (e, w')" by simp
    from Cons.prems(1) have s: "(\<Union>t\<in>set tasks. set (t_refs t)) \<subseteq> R" by simp
    from Cons.prems(2) have h: "list_all (hasHandler c) tasks" by simp
    from Cons.IH [OF s h P1 r2] show ?thesis .
  next
    case (Some e0)
    with Cons.prems(4) r have "w' = w1" "e = e1" by simp_all
    with P1 Q1 show ?thesis by simp
  qed
qed

lemma finish_kept:
  assumes k: "kept c R P Q"
    and refs: "threadRefs th \<subseteq> R"
    and rd: "ready c th"
    and P: "P w"
    and run: "finish c th w = (e, w')"
  shows "P w' \<and> (\<forall>err. e = Some err \<longrightarrow> Q err)"
proof (cases th)
  case (Fresh task)
  from refs Fresh have r: "set (t_refs task) \<subseteq> R" by simp
  from rd Fresh have h: "hasHandler c task" by simp
  from run Fresh have "runTask c task w = (e, w')" by simp
  from runTask_kept [OF k r h P this] show ?thesis .
next
  case (Running result todo)
  from refs Running have r: "snd ` set todo \<subseteq> R" by simp
  from run Running have "bindRefs result todo w = (e, w')" by simp
  from bindRefs_kept [OF k r P this] show ?thesis .
next
  case Finished
  with run P show ?thesis by simp
qed

lemma keepFirst_Q:
  "\<forall>err. fe = Some err \<longrightarrow> Q err \<Longrightarrow> Q e0 \<Longrightarrow> \<forall>err. keepFirst fe e0 = Some err \<longrightarrow> Q err"
  by (cases fe) (simp_all add: keepFirst_def)

lemma drain_kept:
  assumes k: "kept c R P Q"
  shows "(\<Union>th\<in>set ths. threadRefs th) \<subseteq> R \<Longrightarrow> list_all (ready c) ths \<Longrightarrow> P w \<Longrightarrow>
         \<forall>err. fe = Some err \<longrightarrow> Q err \<Longrightarrow>
         drain c ths fe w = (e, w') \<Longrightarrow> P w' \<and> (\<forall>err. e = Some err \<longrightarrow> Q err)"
proof (induction ths arbitrary: w fe)
  case Nil
  then show ?case by simp
next
  case (Cons th ths)
  obtain e1 w1 where r: "finish c th w = (e1, w1)" by (cases "finish c th w")
  from Cons.prems(1) have "threadRefs th \<subseteq> R" by simp
  moreover from Cons.prems(2) have "ready c th" by simp
  ultimately have "P w1 \<and> (\<forall>err. e1 = Some err \<longrightarrow> Q err)"
    using Cons.prems(3) r by (rule finish_kept [OF k])
  then have P1: "P w1" and Q1: "\<forall>err. e1 = Some err \<longrightarrow> Q err" by simp_all
  from Cons.prems(1) have sub: "(\<Union>th\<in>set ths. threadRefs th) \<subseteq> R" by simp
  from Cons.prems(2) have rd: "list_all (ready c) ths" by simp
  show ?case
  proof (cases e1)
    case None
    with Cons.prems(5) r have "drain c ths fe w1 = (e, w')" by simp
    from Cons.IH [OF sub rd P1 Cons.prems(4) this] show ?thesis .
  next
    case (Some e0)
    with Q1 have Q0: "Q e0" by simp
    show ?thesis
    proof (cases "isPanic e0")
      case True
      with Some Cons.prems(5) r have "w' = w1" "e = Some e0" by simp_all
      with P1 Q0 show ?thesis by simp
    next
      case False
      with Some Cons.prems(5) r have "drain c ths (keepFirst fe e0) w1 = (e, w')" by simp
      from Cons.IH [OF sub rd P1 keepFirst_Q [OF Cons.prems(4) Q0] this] show ?thesis .
    qed
  qed
qed

lemma stepThread_kept:
  assumes k: "kept c R P Q"
    and refs: "threadRefs th \<subseteq> R"
    and rd: "ready c th"
    and P: "P w"
    and run: "stepThread c th w = (th', e, w')"
  shows "P w' \<and> threadRefs th' \<subseteq> R \<and> ready c th' \<and> (\<forall>err. e = Some err \<longrightarrow> Q err)"
proof (cases th)
  case (Fresh task)
  from rd Fresh obtain h where "aggregateHandlers c (t_name task) = Some h"
    by (auto simp: hasHandler_def)
  with Fresh run
  have "w' = w\<lparr>log := log w @ [EvHandle (t_name task) (t_values task) (combineCtx c)]\<rparr>"
    and "th' = Running (h (t_values task) (combineCtx c)) (enumerate 0 (t_refs task))"
    and "e = None"
    by simp_all
  with keptD_handle [OF k P] refs Fresh show ?thesis
    by (simp add: snd_enumerate)
next
  case (Running result todo)
  show ?thesis
  proof (cases todo)
    case Nil
    with Running run P show ?thesis by simp
  next
    case (Cons x rest)
    obtain idx ref where x: "x = (idx, ref)" by (cases x)
    obtain e1 w1 where b: "bindRef result idx ref w = (e1, w1)"
      by (cases "bindRef result idx ref w")
    from refs Running Cons x have "ref \<in> R" by simp
    from keptD_bind [OF k this P b]
    have P1: "P w1" and Q1: "\<forall>err. e1 = Some err \<longrightarrow> Q err" by simp_all
    from refs Running Cons have r: "snd ` set rest \<subseteq> R" by simp
    show ?thesis
    proof (cases e1)
      case None
      with run Running Cons x b have "w' = w1" "th' = Running result rest" "e = None"
        by simp_all
      with P1 r show ?thesis by simp
    next
      case (Some e0)
      with run Running Cons x b have "w' = w1" "th' = Finished" "e = e1"
        by simp_all
      with P1 Q1 show ?thesis by simp
    qed
  qed
next
  case Finished
  with run P show ?thesis by simp
qed

lemma ready_update:
  "list_all (ready c) ths \<Longrightarrow> ready c th' \<Longrightarrow> list_all (ready c) (ths[i := th'])"
  unfolding list_all_iff using set_update_subset_insert [of ths i th'] by blast

lemma threadRefs_update:
  assumes "(\<Union>th\<in>set ths. threadRefs th) \<subseteq> R" and "threadRefs th' \<subseteq> R"
  shows "(\<Union>th\<in>set (ths[i := th']). threadRefs th) \<subseteq> R"
proof
  fix r
  assume "r \<in> (\<Union>th\<in>set (ths[i := th']). threadRefs th)"
  then obtain th where th: "th \<in> set (ths[i := th'])" and r: "r \<in> threadRefs th"
    by blast
  from th set_update_subset_insert [of ths i th'] have "th = th' \<or> th \<in> set ths"
    by blast
  with r assms show "r \<in> R" by blast
qed

lemma runConc_kept:
  assumes k: "kept c R P Q"
  shows "(\<Union>th\<in>set ths. threadRefs th) \<subseteq> R \<Longrightarrow> list_all (ready c) ths \<Longrightarrow> P w \<Longrightarrow>
         \<forall>err. fe = Some err \<longrightarrow> Q err \<Longrightarrow>
         runConc c sched ths fe w = (e, w') \<Longrightarrow> P w' \<and> (\<forall>err. e = Some err \<longrightarrow> Q err)"
proof (induction sched arbitrary: ths fe w)
  case Nil
  from Nil(5) have "drain c ths fe w = (e, w')" by simp
  from drain_kept [OF k Nil(1,2,3,4) this] show ?case .
next
  case (Cons i sched)
  show ?case
  proof (cases "i < length ths")
    case False
    with Cons.prems(5) have "runConc c sched ths fe w = (e, w')" by simp
    from Cons.IH [OF Cons.prems(1,2,3,4) this] show ?thesis .
  next
    case True
    obtain th' e1 w1 where s: "stepThread c (ths ! i) w = (th', e1, w1)"
      by (cases "stepThread c (ths ! i) w")
    from True Cons.prems(1) have "threadRefs (ths ! i) \<subseteq> R"
      by (meson UN_subset_iff nth_mem)
    moreover from True Cons.prems(2) have "ready c (ths ! i)"
      by (simp add: list_all_length)
    ultimately have
      "P w1 \<and> threadRefs th' \<subseteq> R \<and> ready c th' \<and> (\<forall>err. e1 = Some err \<longrightarrow> Q err)"
      using Cons.prems(3) s by (rule stepThread_kept [OF k])
    then have P1: "P w1" and r1: "threadRefs th' \<subseteq> R" and rd1: "ready c th'"
      and Q1: "\<forall>err. e1 = Some err \<longrightarrow> Q err"
      by simp_all
    from threadRefs_update [OF Cons.prems(1) r1]
    have sub: "(\<Union>th\<in>set (ths[i := th']). threadRefs th) \<subseteq> R" .
    from ready_update [OF Cons.prems(2) rd1]
    have rd: "list_all (ready c) (ths[i := th'])" .
    show ?thesis
    proof (cases e1)
      case None
      with Cons.prems(5) True s have "runConc c sched (ths[i := th']) fe w1 = (e, w')" by simp
      from Cons.IH [OF sub rd P1 Cons.prems(4) this] show ?thesis .
    next
      case (Some e0)
      with Q1 have Q0: "Q e0" by simp
      show ?thesis
      proof (cases "isPanic e0")
        case True
        with Some Cons.prems(5) \<open>i < length ths\<close> s have "w' = w1" "e = Some e0" by simp_all
        with P1 Q0 show ?thesis by simp
      next
        case False
        with Some Cons.prems(5) True s
        have "runConc c sched (ths[i := th']) (keepFirst fe e0) w1 = (e, w')" by simp
        from Cons.IH [OF sub rd P1 keepFirst_Q [OF Cons.prems(4) Q0] this] show ?thesis .
      qed
    qed
  qed
qed

lemma mapOrder_set: "mapOrder mapRange \<Longrightarrow> set (mapRange aggs) = set aggs"
  unfolding mapOrder_def by (metis mset_eq_setD)

lemma refs_buildTasks:
  "mapOrder mapRange \<Longrightarrow>
   (\<Union>t\<in>set (buildTasks mapRange aggs). set (t_refs t)) = refsIn aggs"
  by (auto simp: buildTasks_def refsIn_def mapOrder_set)

lemma names_appendRef: "fst ` set (appendRef n r aggs) = insert n (fst ` set aggs)"
proof (induction aggs)
  case Nil
  show ?case by simp
next
  case (Cons x aggs)
  obtain k rs where x: "x = (k, rs)" by (cases x)
  show ?case
    unfolding x using Cons.IH by (cases "k = n") auto
qed

lemma collectFields_registered:
  "collectFields c elem fds fi aggs = Inr aggs' \<Longrightarrow>
   \<forall>n\<in>fst ` set aggs. aggregateHandlers c n \<noteq> None \<Longrightarrow>
   \<forall>n\<in>fst ` set aggs'. aggregateHandlers c n \<noteq> None"
proof (induction fds arbitrary: fi aggs)
  case Nil
  then show ?case by simp
next
  case (Cons fd fds)
  show ?case
  proof (cases "parseTag (f_tag fd)")
    case None
    with Cons.prems have "collectFields c elem fds (Suc fi) aggs = Inr aggs'" by simp
    from Cons.IH [OF this Cons.prems(2)] show ?thesis .
  next
    case (Some spec)
    with Cons.prems(1) obtain h where h: "aggregateHandlers c (funcName spec) = Some h"
      and ex: "f_exported fd"
      by (auto split: if_splits option.splits)
    let ?aggs = "appendRef (funcName spec)
               \<lparr>itemValue = elem, fieldIdx = fi, fieldVal = f_val fd,
                  outputTgt = outputTarget spec\<rparr> aggs"
    from Cons.prems(1) Some h ex have r: "collectFields c elem fds (Suc fi) ?aggs = Inr aggs'"
      by simp
    from Cons.prems(2) h have "\<forall>n\<in>fst ` set ?aggs. aggregateHandlers c n \<noteq> None"
      unfolding names_appendRef by simp
    from Cons.IH [OF r this] show ?thesis .
  qed
qed

lemma collectItems_registered:
  "collectItems c m items aggs = Inr aggs' \<Longrightarrow>
   \<forall>n\<in>fst ` set aggs. aggregateHandlers c n \<noteq> None \<Longrightarrow>
   \<forall>n\<in>fst ` set aggs'. aggregateHandlers c n \<noteq> None"
proof (induction items arbitrary: aggs)
  case Nil
  then show ?case by simp
next
  case (Cons it its)
  from Cons.prems(1) obtain aggs1 where
    cf: "collectFields c (ValueOf it) (fieldsOf m (recordOf m it)) 0 aggs = Inr aggs1"
    and rest: "collectItems c m its aggs1 = Inr aggs'"
    by (auto simp: Let_def recordOf_def derefIfPtr_def split: if_splits sum.splits)
  from Cons.IH [OF rest collectFields_registered [OF cf Cons.prems(2)]] show ?case .
qed

lemma hasHandler_buildTasks:
  assumes ord: "mapOrder mapRange"
    and reg: "\<forall>n\<in>fst ` set aggs. aggregateHandlers c n \<noteq> None"
  shows "list_all (hasHandler c) (buildTasks mapRange aggs)"
  using reg by (auto simp: list_all_iff buildTasks_def hasHandler_def mapOrder_set [OF ord])

lemma ready_Fresh: "list_all (hasHandler c) tasks \<Longrightarrow> list_all (ready c) (map Fresh tasks)"
  by (simp add: list_all_iff)

text \<open>
  What the steps of a run keep, \<open>Process\<close> keeps, in either mode; an error it returns
  comes from discovery or is one that binding an entry can fail with.
\<close>

lemma Process_kept:
  assumes ord: "mapOrder mapRange"
    and k: "kept c (snd ` set (allEntries (mem w) items)) P Q"
    and P: "P w"
    and run: "Process c mapRange sched items w = (e, w')"
  shows "P w' \<and> (\<forall>err. e = Some err \<longrightarrow>
            Q err \<or> (collectItems c (mem w) items [] = Inl err \<and> w' = w))"
proof (cases "items = []")
  case True
  with run P show ?thesis by (simp add: Process_def)
next
  case False
  show ?thesis
  proof (cases "collectItems c (mem w) items []")
    case (Inl e0)
    with run False P show ?thesis by (auto simp: Process_def)
  next
    case (Inr aggs)
    from collectItems_Inr [OF Inr] have "refsIn aggs = snd ` set (allEntries (mem w) items)"
      by (simp add: refsIn_addEntries)
    with refs_buildTasks [OF ord, of aggs]
    have refs: "(\<Union>t\<in>set (buildTasks mapRange aggs). set (t_refs t))
                  \<subseteq> snd ` set (allEntries (mem w) items)"
      by simp
    from collectItems_registered [OF Inr]
    have "\<forall>n\<in>fst ` set aggs. aggregateHandlers c n \<noteq> None" by simp
    from hasHandler_buildTasks [OF ord this]
    have hh: "list_all (hasHandler c) (buildTasks mapRange aggs)" .
    show ?thesis
    proof (cases "concurrent c")
      case True
      with run False Inr
      have r: "runConc c sched (map Fresh (buildTasks mapRange aggs)) None w = (e, w')"
        by (simp add: Process_def)
      from refs have "(\<Union>th\<in>set (map Fresh (buildTasks mapRange aggs)). threadRefs th)
                  \<subseteq> snd ` set (allEntries (mem w) items)"
        by auto
      from runConc_kept [OF k this ready_Fresh [OF hh] P _ r] show ?thesis by simp
    next
      case False
      with run \<open>items \<noteq> []\<close> Inr
      have r: "runTasks c (buildTasks mapRange aggs) w = (e, w')"
        by (simp add: Process_def)
      from runTasks_kept [OF k refs hh P r] show ?thesis by simp
    qed
  qed
qed

section \<open>Binding an entry is planning an operation and applying it\<close>

lemma setField_plan:
  "setField sv n v w =
     (case planSet (mem w) sv n v of Inl e \<Rightarrow> (Some e, w) | Inr x \<Rightarrow> (None, applyOp x w))"
proof (cases sv)
  case (PtrV a)
  then show ?thesis
    by (cases "mem w a")
       (simp_all add: setField_def planSet_def planField_def derefIfPtr_def CanSet_def Let_def
          split: option.splits)
next
  case (StructAt a)
  then show ?thesis
    by (simp add: setField_def planSet_def planField_def CanSet_def Let_def split: option.splits)
next
  case (StructCopy s)
  then show ?thesis
    by (simp add: setField_def planSet_def planField_def CanSet_def Let_def split: option.splits)
next
  case OtherV
  then show ?thesis
    by (simp add: setField_def planSet_def planField_def derefIfPtr_def Let_def)
qed

lemma callOutputFunc_plan:
  "callOutputFunc item method arg w =
     (case planCall (mem w) item method arg of
        Inl e \<Rightarrow> (Some e, w) | Inr x \<Rightarrow> (None, applyOp x w))"
proof (cases "if Kind item = KPtr then Some item
            else if CanAddr item then Some (Addr item) else None")
  case None
  then show ?thesis
    by (simp add: callOutputFunc_def planCall_def)
next
  case (Some recv)
  then show ?thesis
    by (cases recv)
       (simp_all add: callOutputFunc_def planCall_def split: option.splits)
qed

lemma bindRef_plan:
  "bindRef result idx ref w =
     (case planRef (mem w) result idx ref of
        Inl e \<Rightarrow> (Some e, w) | Inr x \<Rightarrow> (None, applyOp x w))"
  by (simp add: bindRef_def planRef_def setField_plan callOutputFunc_plan split: sum.splits)


section \<open>Shapes\<close>

lemma shapeOf_eq:
  "shapeOf s = shapeOf s' \<longleftrightarrow>
     s_methods s = s_methods s' \<and> map blank (s_fields s) = map blank (s_fields s')"
proof -
  have "shapeOf s = \<lparr>s_fields = map blank (s_fields s), s_methods = s_methods s\<rparr>" for s
    by (cases s) (simp add: shapeOf_def)
  then show ?thesis by auto
qed

lemma sameShape_refl [simp]: "sameShape m m"
  by (simp add: sameShape_def)

lemma sameShape_sym: "sameShape m m' \<Longrightarrow> sameShape m' m"
  by (simp add: sameShape_def)

lemma sameShape_trans: "sameShape m m' \<Longrightarrow> sameShape m' m'' \<Longrightarrow> sameShape m m''"
  by (simp add: sameShape_def)

lemma sameShape_None: "sameShape m m' \<Longrightarrow> (m a = None) = (m' a = None)"
  unfolding sameShape_def by (metis map_option_is_None)

lemma sameShape_Some:
  "sameShape m m' \<Longrightarrow> m a = Some s \<Longrightarrow>
   \<exists>s'. m' a = Some s' \<and> s_methods s' = s_methods s
        \<and> map blank (s_fields s') = map blank (s_fields s)"
proof -
  assume ss: "sameShape m m'" and s: "m a = Some s"
  from ss have "map_option shapeOf (m a) = map_option shapeOf (m' a)"
    by (simp add: sameShape_def)
  with s obtain s' where "m' a = Some s'" and "shapeOf s = shapeOf s'"
    by (cases "m' a") auto
  then show ?thesis by (auto simp: shapeOf_eq)
qed

lemma blank_map_length: "map blank xs = map blank ys \<Longrightarrow> length xs = length ys"
  by (metis length_map)

lemma blank_map_nth:
  "map blank xs = map blank ys \<Longrightarrow> i < length xs \<Longrightarrow> blank (xs ! i) = blank (ys ! i)"
  by (metis length_map nth_map)

lemma blank_eq:
  "blank fd = blank fd' \<longleftrightarrow>
     f_name fd = f_name fd' \<and> f_tag fd = f_tag fd' \<and> f_type fd = f_type fd'
       \<and> f_exported fd = f_exported fd'"
  by (cases fd, cases fd') (simp add: blank_def)

lemma blank_find:
  "map blank xs = map blank ys \<Longrightarrow>
   map_option blank (find (\<lambda>fd. f_name fd = n) xs)
     = map_option blank (find (\<lambda>fd. f_name fd = n) ys)"
proof (induction xs arbitrary: ys)
  case Nil
  then show ?case by simp
next
  case (Cons x xs)
  then obtain y ys' where ys: "ys = y # ys'" and b: "blank x = blank y"
    and rest: "map blank xs = map blank ys'"
    by (cases ys) auto
  from b have "f_name x = f_name y" by (simp add: blank_eq)
  with Cons.IH [OF rest] b ys show ?case by simp
qed

lemma sameShape_Elem:
  assumes ss: "sameShape m m'"
  shows "Elem m v = Elem m' v"
proof (cases v)
  case (PtrV a)
  with sameShape_None [OF ss, of a] show ?thesis
    by (cases "m a"; cases "m' a") simp_all
qed simp_all

lemma sameShape_derefIfPtr: "sameShape m m' \<Longrightarrow> derefIfPtr m v = derefIfPtr m' v"
  by (simp add: derefIfPtr_def sameShape_Elem)

lemma sameShape_fieldsOf:
  "sameShape m m' \<Longrightarrow> map blank (fieldsOf m sv) = map blank (fieldsOf m' sv)"
proof (cases sv)
  case (StructAt a)
  assume ss: "sameShape m m'"
  show ?thesis
  proof (cases "m a")
    case None
    with sameShape_None [OF ss, of a] StructAt show ?thesis by simp
  next
    case (Some s)
    with sameShape_Some [OF ss Some] StructAt show ?thesis by auto
  qed
qed simp_all

lemma sameShape_refNameByIndex:
  assumes ss: "sameShape m m'"
  shows "refNameByIndex m item idx = refNameByIndex m' item idx"
proof -
  let ?sv = "derefIfPtr m item"
  have d: "derefIfPtr m' item = ?sv" using ss by (simp add: sameShape_derefIfPtr)
  have b: "map blank (fieldsOf m ?sv) = map blank (fieldsOf m' ?sv)"
    by (rule sameShape_fieldsOf [OF ss])
  have l: "length (fieldsOf m ?sv) = length (fieldsOf m' ?sv)"
    by (rule blank_map_length [OF b])
  have "f_name (fieldsOf m ?sv ! idx) = f_name (fieldsOf m' ?sv ! idx)"
    if "idx < length (fieldsOf m ?sv)"
    using blank_map_nth [OF b that] by (simp add: blank_eq)
  with l d show ?thesis
    by (simp add: refNameByIndex_def Let_def)
qed

lemma sameShape_FieldByName:
  "sameShape m m' \<Longrightarrow>
   map_option blank (FieldByName m sv n) = map_option blank (FieldByName m' sv n)"
  unfolding FieldByName_def by (rule blank_find) (rule sameShape_fieldsOf)

lemma sameShape_MethodByName:
  assumes ss: "sameShape m m'"
  shows "MethodByName m recv n = MethodByName m' recv n"
proof (cases recv)
  case (PtrV a)
  show ?thesis
  proof (cases "m a")
    case None
    with sameShape_None [OF ss, of a] PtrV show ?thesis by simp
  next
    case (Some s)
    with sameShape_Some [OF ss Some] PtrV show ?thesis by auto
  qed
qed simp_all

lemma planField_blank:
  "map_option blank found = map_option blank found' \<Longrightarrow>
   planField sv found n v = planField sv found' n v"
proof (cases found)
  case None
  assume "map_option blank found = map_option blank found'"
  with None have "found' = None" by simp
  with None show ?thesis by simp
next
  case (Some fd)
  assume "map_option blank found = map_option blank found'"
  with Some obtain fd' where fd': "found' = Some fd'" and "blank fd = blank fd'"
    by (cases found') auto
  then have "f_exported fd' = f_exported fd" "f_type fd' = f_type fd"
    by (simp_all add: blank_eq)
  with Some fd' show ?thesis by (cases sv; cases "typeOf v") (simp_all add: planField_def)
qed

lemma sameShape_planSet:
  assumes ss: "sameShape m m'"
  shows "planSet m sv n v = planSet m' sv n v"
  unfolding planSet_def Let_def sameShape_derefIfPtr [OF ss]
  by (rule planField_blank) (rule sameShape_FieldByName [OF ss])

lemma sameShape_planCall:
  "sameShape m m' \<Longrightarrow> planCall m item method arg = planCall m' item method arg"
  by (simp add: planCall_def sameShape_MethodByName [of m m'])

lemma sameShape_planRef:
  assumes ss: "sameShape m m'"
  shows "planRef m result idx ref = planRef m' result idx ref"
  unfolding planRef_def sameShape_planSet [OF ss] sameShape_planCall [OF ss]
    sameShape_refNameByIndex [OF ss] sameShape_derefIfPtr [OF ss]
  by (rule refl)

section \<open>What an operation does to the store\<close>

lemma setByName_blank [simp]: "map blank (setByName n v fds) = map blank fds"
  by (induction fds) (simp_all add: blank_def)

lemma setByName_length [simp]: "length (setByName n v fds) = length fds"
  by (induction fds) simp_all

lemma setByName_other:
  "i < length fds \<Longrightarrow> f_name (fds ! i) \<noteq> n \<Longrightarrow> setByName n v fds ! i = fds ! i"
proof (induction fds arbitrary: i)
  case Nil
  then show ?case by simp
next
  case (Cons fd fds)
  then show ?case by (cases i) auto
qed

lemma setVals_blank [simp]: "map blank (setVals fds vs) = map blank fds"
  by (rule nth_equalityI) (simp_all add: setVals_def blank_def)

lemma mem_applyOp_Set:
  "mem (applyOp (OpSet a n v) w) =
     (case mem w a of
        None \<Rightarrow> mem w
      | Some s \<Rightarrow> (mem w)(a \<mapsto> s\<lparr>s_fields := setByName n v (s_fields s)\<rparr>))"
  by (simp add: SetValue_def split: option.splits)

lemma mem_applyOp_Call:
  "mem (applyOp (OpCall a md v) w) =
     (case mem w a of
        None \<Rightarrow> mem w
      | Some s \<Rightarrow>
          (mem w)(a \<mapsto> s\<lparr>s_fields := setVals (s_fields s) (m_body md v (map f_val (s_fields s)))\<rparr>))"
  by (simp add: Call_def split: option.splits)

lemma sameShape_applyOp: "sameShape (mem w) (mem (applyOp x w))"
proof (cases x)
  case (OpSet a n v)
  show ?thesis
    unfolding OpSet mem_applyOp_Set
    by (cases "mem w a") (simp_all add: sameShape_def shapeOf_def)
next
  case (OpCall a md v)
  show ?thesis
    unfolding OpCall mem_applyOp_Call
    by (cases "mem w a") (simp_all add: sameShape_def shapeOf_def)
qed

section \<open>What a plan tells about its entry\<close>

lemma planField_Inr:
  "planField sv found n v = Inr x \<Longrightarrow>
   \<exists>a v' fd. x = OpSet a n v' \<and> sv = StructAt a \<and> found = Some fd \<and> f_exported fd"
  by (cases sv; cases found)
     (auto simp: planField_def split: if_splits option.splits)

lemma planSet_Inr:
  "planSet m sv0 n v = Inr x \<Longrightarrow>
   \<exists>a v'. x = OpSet a n v' \<and> m a \<noteq> None \<and> (sv0 = PtrV a \<or> sv0 = StructAt a)"
proof -
  assume p: "planSet m sv0 n v = Inr x"
  let ?sv = "if Kind sv0 \<noteq> KStruct then derefIfPtr m sv0 else sv0"
  from p have "planField ?sv (FieldByName m ?sv n) n v = Inr x"
    by (simp add: planSet_def Let_def)
  from planField_Inr [OF this] obtain a v' fd where x: "x = OpSet a n v'"
    and sv: "?sv = StructAt a" and f: "FieldByName m ?sv n = Some fd"
    by blast
  from sv have s0: "sv0 = PtrV a \<or> sv0 = StructAt a"
    by (cases sv0) (auto simp: derefIfPtr_def split: option.splits if_splits)
  from f sv have "m a \<noteq> None"
    by (auto simp: FieldByName_def split: option.splits)
  with x s0 show ?thesis by blast
qed

lemma planCall_Inr:
  "planCall m item method arg = Inr x \<Longrightarrow> \<exists>a md v'. x = OpCall a md v'"
  by (auto simp: planCall_def split: option.splits if_splits rvalue.splits)

lemma planRef_Inr:
  assumes p: "planRef m result idx ref = Inr x"
  shows "(\<exists>a n v. x = OpSet a n v \<and> m a \<noteq> None
            \<and> (itemValue ref = PtrV a \<or> itemValue ref = StructAt a)
            \<and> \<not> HasPrefix (outputTgt ref) ''fn:''
            \<and> (if outputTgt ref = []
                then refNameByIndex m (itemValue ref) (fieldIdx ref) = Inr n
                else n = outputTgt ref))
         \<or> (\<exists>a md v. x = OpCall a md v \<and> HasPrefix (outputTgt ref) ''fn:'')"
proof -
  from p obtain out where "resolveOut result idx ref = Inr out"
    by (auto simp: planRef_def split: sum.splits)
  note r = this
  show ?thesis
  proof (cases "outputTgt ref = [] \<or> \<not> HasPrefix (outputTgt ref) ''fn:''")
    case False
    with p r have "planCall m (itemValue ref) (TrimPrefix (outputTgt ref) ''fn:'') out = Inr x"
      by (simp add: planRef_def)
    from planCall_Inr [OF this] False show ?thesis by auto
  next
    case True
    then have nf: "\<not> HasPrefix (outputTgt ref) ''fn:''"
      by (auto simp: HasPrefix_def)
    from p r True obtain tn where
      tn: "(if outputTgt ref = [] then refNameByIndex m (itemValue ref) (fieldIdx ref)
            else Inr (outputTgt ref)) = Inr tn"
      and ps: "planSet m (derefIfPtr m (itemValue ref)) tn out = Inr x"
      by (auto simp: planRef_def split: sum.splits if_splits)
    from planSet_Inr [OF ps] obtain a v' where x: "x = OpSet a tn v'" and ma: "m a \<noteq> None"
      and d: "derefIfPtr m (itemValue ref) = PtrV a \<or> derefIfPtr m (itemValue ref) = StructAt a"
      by blast
    from d have iv: "itemValue ref = PtrV a \<or> itemValue ref = StructAt a"
      by (cases "itemValue ref") (auto simp: derefIfPtr_def split: option.splits)
    from tn have "if outputTgt ref = []
                then refNameByIndex m (itemValue ref) (fieldIdx ref) = Inr tn
                else tn = outputTgt ref"
      by (auto split: if_splits)
    with x ma iv nf show ?thesis by blast
  qed
qed

section \<open>The entries of a batch\<close>

lemma directivesFrom_mem:
  "(fi, fd, spec) \<in> set (directivesFrom k fds) \<Longrightarrow>
   k \<le> fi \<and> fi < k + length fds \<and> fds ! (fi - k) = fd \<and> parseTag (f_tag fd) = Some spec"
proof (induction fds arbitrary: k)
  case Nil
  then show ?case by simp
next
  case (Cons x fds)
  from Cons.prems have
    "(fi = k \<and> fd = x \<and> parseTag (f_tag x) = Some spec)
     \<or> (fi, fd, spec) \<in> set (directivesFrom (Suc k) fds)"
    by (auto simp: directivesFrom_Cons split: option.splits)
  then show ?case
  proof
    assume "fi = k \<and> fd = x \<and> parseTag (f_tag x) = Some spec"
    then show ?thesis by simp
  next
    assume "(fi, fd, spec) \<in> set (directivesFrom (Suc k) fds)"
    from Cons.IH [OF this] have a: "Suc k \<le> fi" "fi < Suc k + length fds"
      "fds ! (fi - Suc k) = fd" "parseTag (f_tag fd) = Some spec"
      by simp_all
    from a(1) have "fi - k = Suc (fi - Suc k)" by simp
    with a show ?thesis by simp
  qed
qed

lemma allEntries_mem:
  "ref \<in> snd ` set (allEntries m items) \<Longrightarrow>
   \<exists>it fi fd spec. it \<in> set items \<and> (fi, fd, spec) \<in> set (directives m it)
      \<and> ref = \<lparr>itemValue = ValueOf it, fieldIdx = fi, fieldVal = f_val fd,
                outputTgt = outputTarget spec\<rparr>"
  by (fastforce simp: allEntries_def entryOf_def)

section \<open>The frame of a call\<close>

lemma framed_refl: "framed w items w"
  by (simp add: framed_def)

lemma framed_log: "framed w items w1 \<Longrightarrow> framed w items (w1\<lparr>log := l\<rparr>)"
  by (simp add: framed_def)

lemma entry_target:
  assumes it: "it \<in> set items"
    and d: "(fi, fd, spec) \<in> set (directives (mem w) it)"
    and ss: "sameShape (mem w) m1"
    and iv: "ValueOf it = PtrV a \<or> ValueOf it = StructAt a"
    and ma: "m1 a \<noteq> None"
    and n: "if outputTarget spec = [] then refNameByIndex m1 (ValueOf it) fi = Inr n
            else n = outputTarget spec"
  shows "n \<in> targetsAt (mem w) items a"
proof -
  from iv have ita: "it = Ptr a" by (cases it) simp_all
  from ma sameShape_None [OF ss, of a] obtain s where s: "mem w a = Some s"
    by auto
  from d ita s have dm: "(fi, fd, spec) \<in> set (directivesFrom 0 (s_fields s))"
    by (simp add: directives_def recordOf_def derefIfPtr_def)
  from directivesFrom_mem [OF dm] have fi: "fi < length (s_fields s)" and fd: "s_fields s ! fi = fd"
    by simp_all
  have "n = targetOf (fi, fd, spec)"
  proof (cases "outputTarget spec = []")
    case False
    with n show ?thesis by (simp add: targetOf_def)
  next
    case True
    have "refNameByIndex m1 (PtrV a) fi = refNameByIndex (mem w) (PtrV a) fi"
      by (rule sameShape_refNameByIndex [OF sameShape_sym [OF ss]])
    also have "\<dots> = Inr (f_name fd)"
      using s fi fd by (simp add: refNameByIndex_def derefIfPtr_def Let_def)
    finally show ?thesis
      using True n ita by (simp add: targetOf_def)
  qed
  with d it ita show ?thesis
    by (force simp: targetsAt_def)
qed

lemma framed_step:
  assumes nc: "noCallbacks (mem w) items"
    and ref: "ref \<in> snd ` set (allEntries (mem w) items)"
    and fr: "framed w items w1"
    and b: "bindRef res idx ref w1 = (e, w1')"
  shows "framed w items w1'"
proof (cases "planRef (mem w1) res idx ref")
  case (Inl err)
  with b fr show ?thesis by (simp add: bindRef_plan)
next
  case (Inr x)
  with b have w1': "w1' = applyOp x w1" by (simp add: bindRef_plan)
  from allEntries_mem [OF ref] obtain it fi fd spec where it: "it \<in> set items"
    and d: "(fi, fd, spec) \<in> set (directives (mem w) it)"
    and r: "ref = \<lparr>itemValue = ValueOf it, fieldIdx = fi, fieldVal = f_val fd,
                outputTgt = outputTarget spec\<rparr>"
    by blast
  have sel: "itemValue ref = ValueOf it" "fieldIdx ref = fi" "outputTgt ref = outputTarget spec"
    using r by simp_all
  from nc it d have nfn: "\<not> HasPrefix (outputTarget spec) ''fn:''"
    by (auto simp: noCallbacks_def list_all_iff usesCallback_def)
  from planRef_Inr [OF Inr, unfolded sel] nfn obtain a n v where x: "x = OpSet a n v"
    and ma: "mem w1 a \<noteq> None"
    and iv: "ValueOf it = PtrV a \<or> ValueOf it = StructAt a"
    and n: "if outputTarget spec = [] then refNameByIndex (mem w1) (ValueOf it) fi = Inr n
            else n = outputTarget spec"
    by blast
  from fr have ss: "sameShape (mem w) (mem w1)" by (simp add: framed_def)
  from entry_target [OF it d ss iv ma n] have nt: "n \<in> targetsAt (mem w) items a" .
  from ma obtain s1 where s1: "mem w1 a = Some s1" by auto
  have m': "mem w1' = (mem w1)(a \<mapsto> s1\<lparr>s_fields := setByName n v (s_fields s1)\<rparr>)"
    unfolding w1' x mem_applyOp_Set using s1 by simp
  have ss': "sameShape (mem w) (mem w1')"
    unfolding w1' by (rule sameShape_trans [OF ss sameShape_applyOp])
  have "s_fields s' ! i = s_fields s ! i"
    if s: "mem w b = Some s" and s': "mem w1' b = Some s'" and i: "i < length (s_fields s)"
      and nt': "f_name (s_fields s ! i) \<notin> targetsAt (mem w) items b" for b s s' i
  proof (cases "b = a")
    case False
    with s' m' have "mem w1 b = Some s'" by simp
    with fr s i nt' show ?thesis unfolding framed_def by blast
  next
    case True
    with s' m' have s'eq: "s_fields s' = setByName n v (s_fields s1)" by auto
    from fr s s1 i nt' True have keep: "s_fields s1 ! i = s_fields s ! i"
      unfolding framed_def by blast
    from sameShape_Some [OF ss s] s1 True have "map blank (s_fields s1) = map blank (s_fields s)"
      by simp
    then have len: "length (s_fields s1) = length (s_fields s)"
      by (rule blank_map_length)
    from nt nt' True keep have "f_name (s_fields s1 ! i) \<noteq> n" by auto
    with i len show ?thesis
      unfolding s'eq by (simp add: setByName_other keep)
  qed
  with ss' show ?thesis unfolding framed_def by blast
qed

lemma framed_kept:
  "noCallbacks (mem w) items \<Longrightarrow>
   kept c (snd ` set (allEntries (mem w) items)) (framed w items) (\<lambda>e. True)"
  unfolding kept_def using framed_step framed_log by blast

text \<open>
  C9. When no directive of the batch uses the \<open>fn:\<close> marker, a field of a record in the
  store whose name is not the resolved output target of a directive of that record has
  after \<open>Process\<close> the value it had before (and the record has the same fields as
  before). This holds for every outcome of the call, so in particular when it returns
  success, and in both modes.
\<close>

theorem Process_frame:
  assumes ord: "mapOrder mapRange"
    and nc: "noCallbacks (mem w) items"
    and run: "Process c mapRange sched items w = (e, w')"
    and s: "mem w a = Some s"
    and i: "i < length (s_fields s)"
    and nt: "f_name (s_fields s ! i) \<notin> targetsAt (mem w) items a"
  shows "\<exists>s'. mem w' a = Some s' \<and> length (s_fields s') = length (s_fields s)
           \<and> s_fields s' ! i = s_fields s ! i"
proof -
  from Process_kept [OF ord framed_kept [OF nc] framed_refl run]
  have fr: "framed w items w'" by simp
  then have ss: "sameShape (mem w) (mem w')" by (simp add: framed_def)
  from sameShape_Some [OF ss s] obtain s' where s': "mem w' a = Some s'"
    and b: "map blank (s_fields s') = map blank (s_fields s)"
    by blast
  from fr s s' i nt have "s_fields s' ! i = s_fields s ! i"
    unfolding framed_def by blast
  with s' blank_map_length [OF b] show ?thesis by simp
qed

lemma parseTag_f_B: "parseTag ''f,B'' = Some \<lparr>funcName = ''f'', outputTarget = ''B''\<rparr>"
  by code_simp

lemma mapOrder_id: "mapOrder id"
  by (simp add: mapOrder_def)

lemma directives_worldB_fB:
  "directives (mem (worldB ''f,B'')) (Ptr 0) =
     [(0, mkField ''A'' ''f,B'' TInt (VInt 1), \<lparr>funcName = ''f'', outputTarget = ''B''\<rparr>)]"
  by (simp add: directives_def directivesFrom_def recordOf_def derefIfPtr_def worldB_def recB_def
      mkField_def parseTag_f_B parseTag_empty)

lemma Process_worldB_fB:
  "Process engF id [] [Ptr 0] (worldB ''f,B'') =
     (None,
      \<lparr>mem = [0 \<mapsto> \<lparr>s_fields = [mkField ''A'' ''f,B'' TInt (VInt 1), mkField ''B'' [] TInt (VInt 7),
                  mkField ''C'' [] TString (VStr ''c'')], s_methods = []\<rparr>],
       log = [EvHandle ''f'' [VInt 1] Map.empty, EvSet 0 ''B'' (VInt 7)]\<rparr>)"
  by (simp add: Process_def worldB_def recB_def mkField_def parseTag_f_B parseTag_empty
      engF_def Register_def New_def buildTasks_def runTask_def bindRef_def resolveOut_def
      hSeven_def HasPrefix_def setField_def derefIfPtr_def FieldByName_def CanSet_def
      AssignableTo_def SetValue_def)

theorem Process_frame_witness:
  "mapOrder id
   \<and> noCallbacks (mem (worldB ''f,B'')) [Ptr 0]
   \<and> mem (worldB ''f,B'') 0 = Some (recB ''f,B'')
   \<and> 2 < length (s_fields (recB ''f,B''))
   \<and> f_name (s_fields (recB ''f,B'') ! 2) \<notin> targetsAt (mem (worldB ''f,B'')) [Ptr 0] 0
   \<and> fst (Process engF id [] [Ptr 0] (worldB ''f,B'')) = None
   \<and> (\<exists>s'. mem (snd (Process engF id [] [Ptr 0] (worldB ''f,B''))) 0 = Some s'
         \<and> length (s_fields s') = 3
         \<and> s_fields s' ! 2 = mkField ''C'' [] TString (VStr ''c''))"
proof -
  have nc: "noCallbacks (mem (worldB ''f,B'')) [Ptr 0]"
    by (simp add: noCallbacks_def directives_worldB_fB usesCallback_def HasPrefix_def)
  have run: "Process engF id [] [Ptr 0] (worldB ''f,B'')
      = (fst (Process engF id [] [Ptr 0] (worldB ''f,B'')),
         snd (Process engF id [] [Ptr 0] (worldB ''f,B'')))"
    by simp
  have s: "mem (worldB ''f,B'') 0 = Some (recB ''f,B'')"
    by (simp add: worldB_def)
  have i: "2 < length (s_fields (recB ''f,B''))"
    by (simp add: recB_def)
  have nt: "f_name (s_fields (recB ''f,B'') ! 2) \<notin> targetsAt (mem (worldB ''f,B'')) [Ptr 0] 0"
    by (simp add: targetsAt_def directives_worldB_fB targetOf_def recB_def mkField_def)
  have ok: "fst (Process engF id [] [Ptr 0] (worldB ''f,B'')) = None"
    by (simp add: Process_worldB_fB)
  from Process_frame [OF mapOrder_id nc run s i nt] nc s i nt ok
  show ?thesis by (simp add: mapOrder_id recB_def eval_nat_numeral)
qed

section \<open>What a run logs\<close>

lemma log_applyOp_Set:
  "mem w a \<noteq> None \<Longrightarrow> log (applyOp (OpSet a n v) w) = log w @ [EvSet a n v]"
  by (auto simp: SetValue_def)

lemma log_applyOp_Call:
  "mem w a \<noteq> None \<Longrightarrow> log (applyOp (OpCall a md v) w) = log w @ [EvCall a (m_name md) v]"
  by (auto simp: Call_def)

lemma planCall_Inr_mem:
  "planCall m item method arg = Inr (OpCall a md v) \<Longrightarrow> m a \<noteq> None"
  by (auto simp: planCall_def split: option.splits if_splits rvalue.splits)

lemma planRef_log:
  assumes p: "planRef (mem w) result idx ref = Inr x"
  shows "\<exists>ev. log (applyOp x w) = log w @ [ev] \<and> \<not> isHandle ev"
proof -
  from planRef_Inr [OF p] consider
    (set) a n v where "x = OpSet a n v" "mem w a \<noteq> None"
    | (call) a md v where "x = OpCall a md v"
    by blast
  then show ?thesis
  proof cases
    case set
    with log_applyOp_Set [of w a n v] show ?thesis by auto
  next
    case call
    from p obtain out where "resolveOut result idx ref = Inr out"
      by (auto simp: planRef_def split: sum.splits)
    with p call have "\<exists>item method arg. planCall (mem w) item method arg = Inr (OpCall a md v)"
      by (auto simp: planRef_def split: sum.splits if_splits dest: planSet_Inr)
    then have "mem w a \<noteq> None" using planCall_Inr_mem by blast
    with call log_applyOp_Call [of w a md v] show ?thesis by auto
  qed
qed

lemma bindRef_log:
  assumes b: "bindRef result idx ref w = (e, w')"
  shows "(e = None \<longrightarrow> (\<exists>ev. log w' = log w @ [ev] \<and> \<not> isHandle ev))
         \<and> (e \<noteq> None \<longrightarrow> w' = w)"
proof (cases "planRef (mem w) result idx ref")
  case (Inl err)
  with b show ?thesis by (auto simp: bindRef_plan)
next
  case (Inr x)
  with b have "e = None" "w' = applyOp x w" by (auto simp: bindRef_plan)
  with planRef_log [OF Inr] show ?thesis by simp
qed

lemma bindRefs_log:
  "bindRefs result todo w = (e, w') \<Longrightarrow>
   \<exists>evs. log w' = log w @ evs \<and> list_all (\<lambda>ev. \<not> isHandle ev) evs
      \<and> (e = None \<longrightarrow> length evs = length todo)"
proof (induction todo arbitrary: w)
  case Nil
  then show ?case by simp
next
  case (Cons x todo)
  obtain idx ref where x: "x = (idx, ref)" by (cases x)
  obtain e1 w1 where b: "bindRef result idx ref w = (e1, w1)" by (cases "bindRef result idx ref w")
  show ?case
  proof (cases e1)
    case None
    with bindRef_log [OF b] obtain ev where ev: "log w1 = log w @ [ev]" "\<not> isHandle ev"
      by auto
    from None Cons.prems x b have "bindRefs result todo w1 = (e, w')" by simp
    from Cons.IH [OF this] obtain evs where "log w' = log w1 @ evs"
      "list_all (\<lambda>ev. \<not> isHandle ev) evs" "e = None \<longrightarrow> length evs = length todo"
      by blast
    with ev have "log w' = log w @ (ev # evs) \<and> list_all (\<lambda>ev. \<not> isHandle ev) (ev # evs)
      \<and> (e = None \<longrightarrow> length (ev # evs) = length (x # todo))"
      by simp
    then show ?thesis by blast
  next
    case (Some e0)
    with bindRef_log [OF b] have "w1 = w" by simp
    with Some Cons.prems x b have "w' = w" "e \<noteq> None" by auto
    then show ?thesis by simp
  qed
qed

lemma runTask_log:
  assumes hh: "hasHandler c task"
    and run: "runTask c task w = (e, w')"
  shows "\<exists>evs. log w' = log w @ handleOf c task # evs \<and> list_all (\<lambda>ev. \<not> isHandle ev) evs
      \<and> (e = None \<longrightarrow> length evs = length (t_refs task))"
proof -
  from hh obtain h where "aggregateHandlers c (t_name task) = Some h"
    by (auto simp: hasHandler_def)
  with run have b: "bindRefs (h (t_values task) (combineCtx c)) (enumerate 0 (t_refs task))
            (w\<lparr>log := log w @ [handleOf c task]\<rparr>) = (e, w')"
    by (simp add: runTask_def handleOf_def)
  from bindRefs_log [OF b] show ?thesis by simp
qed

lemma runTasks_log:
  "list_all (hasHandler c) tasks \<Longrightarrow> runTasks c tasks w = (e, w') \<Longrightarrow>
   \<exists>k evs. log w' = log w @ evs \<and> k \<le> length tasks
      \<and> filter isHandle evs = map (handleOf c) (take k tasks)
      \<and> (e = None \<longrightarrow> k = length tasks
            \<and> length (filter (\<lambda>ev. \<not> isHandle ev) evs) = sum_list (map (\<lambda>t. length (t_refs t)) tasks))
      \<and> (e \<noteq> None \<longrightarrow> 0 < k \<and> (\<exists>w1. runTask c (tasks ! (k - 1)) w1 = (e, w')))"
proof (induction tasks arbitrary: w)
  case Nil
  then show ?case by simp
next
  case (Cons task tasks)
  obtain e1 w1 where r: "runTask c task w = (e1, w1)" by (cases "runTask c task w")
  from Cons.prems(1) have hh: "hasHandler c task" and hs: "list_all (hasHandler c) tasks"
    by simp_all
  from runTask_log [OF hh r] obtain evs1 where l1: "log w1 = log w @ handleOf c task # evs1"
    and n1: "list_all (\<lambda>ev. \<not> isHandle ev) evs1"
    and c1: "e1 = None \<longrightarrow> length evs1 = length (t_refs task)"
    by blast
  from n1 have f1: "filter isHandle evs1 = []" "filter (\<lambda>ev. \<not> isHandle ev) evs1 = evs1"
    by (simp_all add: list_all_iff)
  have hd: "isHandle (handleOf c task)" by (simp add: handleOf_def)
  show ?case
  proof (cases e1)
    case None
    with Cons.prems(2) r have "runTasks c tasks w1 = (e, w')" by simp
    from Cons.IH [OF hs this] obtain k evs where l: "log w' = log w1 @ evs"
      and k: "k \<le> length tasks"
      and h: "filter isHandle evs = map (handleOf c) (take k tasks)"
      and ok: "e = None \<longrightarrow> k = length tasks
            \<and> length (filter (\<lambda>ev. \<not> isHandle ev) evs) = sum_list (map (\<lambda>t. length (t_refs t)) tasks)"
      and err: "e \<noteq> None \<longrightarrow> 0 < k \<and> (\<exists>w1. runTask c (tasks ! (k - 1)) w1 = (e, w'))"
      by blast
    let ?evs = "handleOf c task # evs1 @ evs"
    have "log w' = log w @ ?evs" using l l1 by simp
    moreover have "Suc k \<le> length (task # tasks)" using k by simp
    moreover have "filter isHandle ?evs = map (handleOf c) (take (Suc k) (task # tasks))"
      using h f1 hd by simp
    moreover have "e = None \<longrightarrow> Suc k = length (task # tasks)
            \<and> length (filter (\<lambda>ev. \<not> isHandle ev) ?evs)
                = sum_list (map (\<lambda>t. length (t_refs t)) (task # tasks))"
      using ok f1 hd c1 None by simp
    moreover have "e \<noteq> None \<longrightarrow> 0 < Suc k
            \<and> (\<exists>w1. runTask c ((task # tasks) ! (Suc k - 1)) w1 = (e, w'))"
    proof
      assume "e \<noteq> None"
      with err obtain w2 where "0 < k" "runTask c (tasks ! (k - 1)) w2 = (e, w')" by blast
      then show "0 < Suc k \<and> (\<exists>w1. runTask c ((task # tasks) ! (Suc k - 1)) w1 = (e, w'))"
        by (cases k) auto
    qed
    ultimately show ?thesis by blast
  next
    case (Some e0)
    with Cons.prems(2) r have ew: "e = e1" "w' = w1" by simp_all
    let ?evs = "handleOf c task # evs1"
    have "log w' = log w @ ?evs" using l1 ew by simp
    moreover have "Suc 0 \<le> length (task # tasks)" by simp
    moreover have "filter isHandle ?evs = map (handleOf c) (take (Suc 0) (task # tasks))"
      using f1 hd by simp
    moreover have "e \<noteq> None" using ew Some by simp
    moreover have "runTask c ((task # tasks) ! (Suc 0 - 1)) w = (e, w')"
      using r ew by simp
    ultimately show ?thesis by blast
  qed
qed

lemma handles_simps [simp]:
  "handles [] = {#}"
  "handles (xs @ ys) = handles xs + handles ys"
  "handles (ev # evs) = (if isHandle ev then {#ev#} else {#}) + handles evs"
  by (simp_all add: handles_def)

lemma binds_simps [simp]:
  "binds [] = 0"
  "binds (xs @ ys) = binds xs + binds ys"
  "binds (ev # evs) = (if isHandle ev then 0 else 1) + binds evs"
  by (simp_all add: binds_def)

lemma nohandle_counts:
  "list_all (\<lambda>ev. \<not> isHandle ev) evs \<Longrightarrow> handles evs = {#} \<and> binds evs = length evs"
  by (induction evs) simp_all

lemma allHandles_simps [simp]:
  "allHandles c [] = {#}"
  "allHandles c (th # ths) = mset (pendingHandles c th) + allHandles c ths"
  by (simp_all add: allHandles_def)

lemma allBinds_simps [simp]:
  "allBinds [] = 0"
  "allBinds (th # ths) = pendingBinds th + allBinds ths"
  by (simp_all add: allBinds_def)

lemma allHandles_update:
  "i < length ths \<Longrightarrow>
   allHandles c (ths[i := th']) + mset (pendingHandles c (ths ! i))
     = allHandles c ths + mset (pendingHandles c th')"
proof (induction ths arbitrary: i)
  case Nil
  then show ?case by simp
next
  case (Cons th ths)
  show ?case
  proof (cases i)
    case 0
    then show ?thesis by simp
  next
    case (Suc j)
    with Cons.prems have "j < length ths" by simp
    from Cons.IH [OF this] Suc show ?thesis by (simp add: ac_simps)
  qed
qed

lemma allBinds_update:
  "i < length ths \<Longrightarrow>
   allBinds (ths[i := th']) + pendingBinds (ths ! i) = allBinds ths + pendingBinds th'"
proof (induction ths arbitrary: i)
  case Nil
  then show ?case by simp
next
  case (Cons th ths)
  show ?case
  proof (cases i)
    case 0
    then show ?thesis by simp
  next
    case (Suc j)
    with Cons.prems have "j < length ths" by simp
    from Cons.IH [OF this] Suc show ?thesis by simp
  qed
qed

lemma isHandle_handleOf [simp]: "isHandle (handleOf c task)"
  by (simp add: handleOf_def)

lemma finish_log:
  assumes rd: "ready c th"
    and run: "finish c th w = (e, w')"
  shows "\<exists>evs. log w' = log w @ evs
      \<and> (e = None \<longrightarrow> handles evs = mset (pendingHandles c th) \<and> binds evs = pendingBinds th)"
proof (cases th)
  case (Fresh task)
  with rd run have "hasHandler c task" "runTask c task w = (e, w')" by simp_all
  from runTask_log [OF this] obtain evs where l: "log w' = log w @ handleOf c task # evs"
    and n: "list_all (\<lambda>ev. \<not> isHandle ev) evs"
    and c: "e = None \<longrightarrow> length evs = length (t_refs task)"
    by blast
  from l nohandle_counts [OF n] c Fresh show ?thesis by simp
next
  case (Running result todo)
  with run have "bindRefs result todo w = (e, w')" by simp
  from bindRefs_log [OF this] obtain evs where l: "log w' = log w @ evs"
    and n: "list_all (\<lambda>ev. \<not> isHandle ev) evs"
    and c: "e = None \<longrightarrow> length evs = length todo"
    by blast
  from l nohandle_counts [OF n] c Running show ?thesis by auto
next
  case Finished
  with run show ?thesis by simp
qed

lemma keepFirst_Some [simp]: "keepFirst fe e0 \<noteq> None"
  by (cases fe) (simp_all add: keepFirst_def)

lemma drain_log:
  "list_all (ready c) ths \<Longrightarrow> drain c ths fe w = (e, w') \<Longrightarrow>
   \<exists>evs. log w' = log w @ evs
      \<and> (e = None \<longrightarrow> fe = None \<and> handles evs = allHandles c ths \<and> binds evs = allBinds ths)"
proof (induction ths arbitrary: w fe)
  case Nil
  then show ?case by simp
next
  case (Cons th ths)
  obtain e1 w1 where r: "finish c th w = (e1, w1)" by (cases "finish c th w")
  from Cons.prems(1) have rd: "ready c th" and rds: "list_all (ready c) ths" by simp_all
  from finish_log [OF rd r] obtain evs1 where l1: "log w1 = log w @ evs1"
    and c1: "e1 = None \<longrightarrow> handles evs1 = mset (pendingHandles c th) \<and> binds evs1 = pendingBinds th"
    by blast
  show ?case
  proof (cases e1)
    case None
    with Cons.prems(2) r have "drain c ths fe w1 = (e, w')" by simp
    from Cons.IH [OF rds this] obtain evs where l: "log w' = log w1 @ evs"
      and c: "e = None \<longrightarrow> fe = None \<and> handles evs = allHandles c ths \<and> binds evs = allBinds ths"
      by blast
    from l l1 have "log w' = log w @ (evs1 @ evs)" by simp
    moreover from c c1 None
    have "e = None \<longrightarrow> fe = None \<and> handles (evs1 @ evs) = allHandles c (th # ths)
            \<and> binds (evs1 @ evs) = allBinds (th # ths)"
      by simp
    ultimately show ?thesis by blast
  next
    case (Some e0)
    show ?thesis
    proof (cases "isPanic e0")
      case True
      with Some Cons.prems(2) r have "w' = w1" "e = Some e0" by simp_all
      with l1 show ?thesis by simp
    next
      case False
      with Some Cons.prems(2) r have "drain c ths (keepFirst fe e0) w1 = (e, w')" by simp
      from Cons.IH [OF rds this] obtain evs where l: "log w' = log w1 @ evs"
        and c: "e = None \<longrightarrow> keepFirst fe e0 = None \<and> handles evs = allHandles c ths
                  \<and> binds evs = allBinds ths"
        by blast
      from c have "e \<noteq> None" by auto
      moreover from l l1 have "log w' = log w @ (evs1 @ evs)" by simp
      ultimately show ?thesis by blast
    qed
  qed
qed

lemma stepThread_log:
  assumes rd: "ready c th"
    and run: "stepThread c th w = (th', e, w')"
  shows "\<exists>evs. log w' = log w @ evs
      \<and> (e = None \<longrightarrow> handles evs + mset (pendingHandles c th') = mset (pendingHandles c th)
            \<and> binds evs + pendingBinds th' = pendingBinds th)"
proof (cases th)
  case (Fresh task)
  from rd Fresh obtain h where "aggregateHandlers c (t_name task) = Some h"
    by (auto simp: hasHandler_def)
  with Fresh run
  have "w' = w\<lparr>log := log w @ [handleOf c task]\<rparr>"
    and "th' = Running (h (t_values task) (combineCtx c)) (enumerate 0 (t_refs task))"
    by (simp_all add: handleOf_def)
  then have "log w' = log w @ [handleOf c task]
     \<and> handles [handleOf c task] + mset (pendingHandles c th') = mset (pendingHandles c th)
     \<and> binds [handleOf c task] + pendingBinds th' = pendingBinds th"
    using Fresh by simp
  then show ?thesis by blast
next
  case (Running result todo)
  show ?thesis
  proof (cases todo)
    case Nil
    with Running run show ?thesis by simp
  next
    case (Cons x rest)
    obtain idx ref where x: "x = (idx, ref)" by (cases x)
    obtain e1 w1 where b: "bindRef result idx ref w = (e1, w1)"
      by (cases "bindRef result idx ref w")
    show ?thesis
    proof (cases e1)
      case None
      with bindRef_log [OF b] obtain ev where ev: "log w1 = log w @ [ev]" "\<not> isHandle ev"
        by auto
      from None run Running Cons x b have "w' = w1" "th' = Running result rest" "e = None"
        by simp_all
      with ev Running Cons have "log w' = log w @ [ev]
        \<and> handles [ev] + mset (pendingHandles c th') = mset (pendingHandles c th)
        \<and> binds [ev] + pendingBinds th' = pendingBinds th"
        by simp
      then show ?thesis by blast
    next
      case (Some e0)
      with bindRef_log [OF b] have "w1 = w" by simp
      with Some run Running Cons x b have "w' = w" "e \<noteq> None" by auto
      then show ?thesis by auto
    qed
  qed
next
  case Finished
  with run show ?thesis by simp
qed

lemma runConc_log:
  "list_all (ready c) ths \<Longrightarrow> runConc c sched ths fe w = (e, w') \<Longrightarrow>
   \<exists>evs. log w' = log w @ evs
      \<and> (e = None \<longrightarrow> fe = None \<and> handles evs = allHandles c ths \<and> binds evs = allBinds ths)"
proof (induction sched arbitrary: ths fe w)
  case Nil
  from Nil(2) have "drain c ths fe w = (e, w')" by simp
  from drain_log [OF Nil(1) this] show ?case .
next
  case (Cons i sched)
  show ?case
  proof (cases "i < length ths")
    case False
    with Cons.prems(2) have "runConc c sched ths fe w = (e, w')" by simp
    from Cons.IH [OF Cons.prems(1) this] show ?thesis .
  next
    case True
    obtain th' e1 w1 where s: "stepThread c (ths ! i) w = (th', e1, w1)"
      by (cases "stepThread c (ths ! i) w")
    from True Cons.prems(1) have rdi: "ready c (ths ! i)"
      by (simp add: list_all_length)
    from stepThread_log [OF rdi s] obtain evs1 where l1: "log w1 = log w @ evs1"
      and c1: "e1 = None \<longrightarrow>
                 handles evs1 + mset (pendingHandles c th') = mset (pendingHandles c (ths ! i))
                 \<and> binds evs1 + pendingBinds th' = pendingBinds (ths ! i)"
      by blast
    from stepThread_kept [where P = "\<lambda>w. True" and Q = "\<lambda>e. True" and R = UNIV, OF _ _ rdi _ s]
    have "ready c th'" by (simp add: kept_def)
    from ready_update [OF Cons.prems(1) this]
    have rd: "list_all (ready c) (ths[i := th'])" .
    show ?thesis
    proof (cases e1)
      case None
      with Cons.prems(2) True s have "runConc c sched (ths[i := th']) fe w1 = (e, w')" by simp
      from Cons.IH [OF rd this] obtain evs where l: "log w' = log w1 @ evs"
        and c: "e = None \<longrightarrow> fe = None \<and> handles evs = allHandles c (ths[i := th'])
                  \<and> binds evs = allBinds (ths[i := th'])"
        by blast
      from l l1 have "log w' = log w @ (evs1 @ evs)" by simp
      moreover have "handles (evs1 @ evs) = allHandles c ths \<and> binds (evs1 @ evs) = allBinds ths"
        if "e = None"
      proof -
        from that c have h: "handles evs = allHandles c (ths[i := th'])"
          and b: "binds evs = allBinds (ths[i := th'])" by simp_all
        from c1 None have h1: "handles evs1 + mset (pendingHandles c th')
                                = mset (pendingHandles c (ths ! i))"
          and b1: "binds evs1 + pendingBinds th' = pendingBinds (ths ! i)" by simp_all
        have "handles (evs1 @ evs) + mset (pendingHandles c th')
               = allHandles c (ths[i := th']) + mset (pendingHandles c (ths ! i))"
          using h h1 by (simp add: ac_simps)
        also have "\<dots> = allHandles c ths + mset (pendingHandles c th')"
          by (rule allHandles_update [OF True])
        finally have "handles (evs1 @ evs) = allHandles c ths" by simp
        moreover have "binds (evs1 @ evs) + pendingBinds th' = allBinds ths + pendingBinds th'"
          using b b1 allBinds_update [OF True, of th'] by simp
        ultimately show ?thesis by simp
      qed
      moreover from c have "e = None \<longrightarrow> fe = None" by simp
      ultimately show ?thesis by blast
    next
      case (Some e0)
      show ?thesis
      proof (cases "isPanic e0")
        case True
        with Some Cons.prems(2) \<open>i < length ths\<close> s have "w' = w1" "e = Some e0" by simp_all
        with l1 show ?thesis by simp
      next
        case False
        with Some Cons.prems(2) True s
        have "runConc c sched (ths[i := th']) (keepFirst fe e0) w1 = (e, w')" by simp
        from Cons.IH [OF rd this] obtain evs where l: "log w' = log w1 @ evs"
          and c: "e = None \<longrightarrow> keepFirst fe e0 = None \<and> handles evs = allHandles c (ths[i := th'])
                  \<and> binds evs = allBinds (ths[i := th'])"
          by blast
        from c have "e \<noteq> None" by auto
        moreover from l l1 have "log w' = log w @ (evs1 @ evs)" by simp
        ultimately show ?thesis by blast
      qed
    qed
  qed
qed

lemma total_appendRef:
  "sum_list (map (\<lambda>(n, rs). length rs) (appendRef n r aggs))
     = Suc (sum_list (map (\<lambda>(n, rs). length rs) aggs))"
proof (induction aggs)
  case Nil
  show ?case by simp
next
  case (Cons x aggs)
  obtain k rs where x: "x = (k, rs)" by (cases x)
  show ?case
    unfolding x using Cons.IH by (cases "k = n") simp_all
qed

lemma total_addEntries:
  "sum_list (map (\<lambda>(n, rs). length rs) (addEntries aggs es))
     = sum_list (map (\<lambda>(n, rs). length rs) aggs) + length es"
proof (induction es arbitrary: aggs)
  case Nil
  show ?case by simp
next
  case (Cons x es)
  obtain n r where x: "x = (n, r)" by (cases x)
  show ?case
    unfolding x by (simp add: Cons.IH total_appendRef)
qed

lemma mapOrder_image:
  "mapOrder mapRange \<Longrightarrow> mset (map f (mapRange aggs)) = image_mset f (mset aggs)"
  by (metis mapOrder_def mset_map)

lemma mapOrder_sum:
  assumes "mapOrder mapRange"
  shows "sum_list (map f (mapRange aggs)) = sum_list (map (f::_ \<Rightarrow> nat) aggs)"
proof -
  have "sum_mset (image_mset f (mset (mapRange aggs))) = sum_mset (image_mset f (mset aggs))"
    using assms by (simp add: mapOrder_def)
  then show ?thesis by (simp add: sum_mset_sum_list flip: mset_map)
qed

lemma allHandles_Fresh: "allHandles c (map Fresh tasks) = mset (map (handleOf c) tasks)"
  by (induction tasks) simp_all

lemma allBinds_Fresh: "allBinds (map Fresh tasks) = sum_list (map (\<lambda>t. length (t_refs t)) tasks)"
  by (induction tasks) simp_all

lemma Process_log_grows:
  assumes ord: "mapOrder mapRange"
    and run: "Process c mapRange sched items w = (e, w')"
  shows "log w' = log w @ newLog w w'"
proof -
  have k: "kept c (snd ` set (allEntries (mem w) items)) (\<lambda>w1. \<exists>evs. log w1 = log w @ evs)
             (\<lambda>e. True)"
    unfolding kept_def
  proof (intro conjI allI impI)
    fix w1 n vs
    assume "\<exists>evs. log w1 = log w @ evs"
    then show "\<exists>evs. log (w1\<lparr>log := log w1 @ [EvHandle n vs (combineCtx c)]\<rparr>) = log w @ evs"
      by auto
  next
    fix res idx ref w1 e1 w1'
    assume "\<exists>evs. log w1 = log w @ evs" and b: "bindRef res idx ref w1 = (e1, w1')"
    with bindRef_log [OF b] show "\<exists>evs. log w1' = log w @ evs"
      by (cases e1) auto
  qed simp
  from Process_kept [OF ord k _ run] obtain evs where "log w' = log w @ evs" by auto
  then show ?thesis by (simp add: newLog_def)
qed

text \<open>
  When \<open>Process\<close> succeeds, in either mode, the handler calls it logged are those of the
  tasks, each once, and it logged one field set or method called for each entry.
\<close>

lemma Process_success_log:
  assumes ord: "mapOrder mapRange"
    and coll: "collectItems c (mem w) items [] = Inr aggs"
    and run: "Process c mapRange sched items w = (None, w')"
  shows "handles (newLog w w') = mset (map (handleOf c) (buildTasks mapRange aggs))
         \<and> binds (newLog w w') = length (allEntries (mem w) items)"
proof -
  let ?tasks = "buildTasks mapRange aggs"
  from collectItems_registered [OF coll]
  have "\<forall>n\<in>fst ` set aggs. aggregateHandlers c n \<noteq> None" by simp
  from hasHandler_buildTasks [OF ord this] have hh: "list_all (hasHandler c) ?tasks" .
  have tot: "sum_list (map (\<lambda>t. length (t_refs t)) ?tasks) = length (allEntries (mem w) items)"
  proof -
    have "sum_list (map (\<lambda>t. length (t_refs t)) ?tasks)
            = sum_list (map (\<lambda>(n, rs). length rs) (mapRange aggs))"
      by (simp add: buildTasks_def comp_def case_prod_unfold)
    also have "\<dots> = sum_list (map (\<lambda>(n, rs). length rs) aggs)"
      by (rule mapOrder_sum [OF ord])
    also have "\<dots> = length (allEntries (mem w) items)"
      using collectItems_Inr [OF coll] by (simp add: total_addEntries)
    finally show ?thesis .
  qed
  have "\<exists>evs. log w' = log w @ evs \<and> handles evs = mset (map (handleOf c) ?tasks)
           \<and> binds evs = sum_list (map (\<lambda>t. length (t_refs t)) ?tasks)"
  proof (cases "items = []")
    case True
    with coll have "aggs = []" by simp
    moreover from ord have "mapRange [] = []"
      by (metis mapOrder_def mset_zero_iff)
    ultimately have "?tasks = []" by (simp add: buildTasks_def)
    with True run show ?thesis by (simp add: Process_def)
  next
    case False
    show ?thesis
    proof (cases "concurrent c")
      case True
      with run False coll
      have "runConc c sched (map Fresh ?tasks) None w = (None, w')"
        by (simp add: Process_def)
      from runConc_log [OF ready_Fresh [OF hh] this] show ?thesis
        by (simp add: allHandles_Fresh allBinds_Fresh)
    next
      case seq: False
      with run False coll have "runTasks c ?tasks w = (None, w')"
        by (simp add: Process_def)
      from runTasks_log [OF hh this] obtain k evs where "log w' = log w @ evs"
        "filter isHandle evs = map (handleOf c) (take k ?tasks)" "k = length ?tasks"
        "length (filter (\<lambda>ev. \<not> isHandle ev) evs) = sum_list (map (\<lambda>t. length (t_refs t)) ?tasks)"
        by auto
      then have "log w' = log w @ evs \<and> handles evs = mset (map (handleOf c) ?tasks)
           \<and> binds evs = sum_list (map (\<lambda>t. length (t_refs t)) ?tasks)"
        by (simp add: handles_def binds_def)
      then show ?thesis by blast
    qed
  qed
  then show ?thesis by (auto simp: newLog_def tot)
qed

section \<open>Records passed by value\<close>

lemma resolveOut_Inl: "resolveOut result idx ref = Inl p \<Longrightarrow> p = UnhashableKey"
  by (auto simp: resolveOut_def split: option.splits if_splits)

lemma HasPrefix_Nil: "\<not> HasPrefix [] ''fn:''"
  by (simp add: HasPrefix_def)

lemma planRef_byValue:
  assumes d: "(fi, fd, spec) \<in> set (directives m0 (StructVal s))"
    and r: "ref = \<lparr>itemValue = ValueOf (StructVal s), fieldIdx = fi, fieldVal = f_val fd,
                outputTgt = outputTarget spec\<rparr>"
  shows "planRef m result idx ref =
           (case resolveOut result idx ref of
              Inl p \<Rightarrow> Inl (RuntimePanic UnhashableKey)
            | Inr out \<Rightarrow> Inl (byValueError (fi, fd, spec)))"
proof (cases "resolveOut result idx ref")
  case (Inl p)
  with resolveOut_Inl [OF Inl] show ?thesis by (simp add: planRef_def)
next
  case (Inr out)
  from d have dm: "(fi, fd, spec) \<in> set (directivesFrom 0 (s_fields s))"
    by (simp add: directives_def recordOf_def derefIfPtr_def)
  from directivesFrom_mem [OF dm] have fi: "fi < length (s_fields s)" and fd: "s_fields s ! fi = fd"
    by simp_all
  show ?thesis
  proof (cases "HasPrefix (outputTarget spec) ''fn:''")
    case True
    then have "outputTarget spec \<noteq> []" using HasPrefix_Nil by auto
    with True Inr r show ?thesis
      by (simp add: planRef_def planCall_def byValueError_def usesCallback_def)
  next
    case False
    have "refNameByIndex m (StructCopy s) fi = Inr (f_name fd)"
      using fi fd by (simp add: refNameByIndex_def derefIfPtr_def Let_def)
    with False Inr r show ?thesis
      by (simp add: planRef_def planSet_def planField_def derefIfPtr_def Let_def
          byValueError_def usesCallback_def targetOf_def)
  qed
qed

lemma byValue_entry:
  assumes bv: "byValue items"
    and ref: "ref \<in> snd ` set (allEntries m0 items)"
  shows "\<exists>s fi fd spec. StructVal s \<in> set items \<and> (fi, fd, spec) \<in> set (directives m0 (StructVal s))
           \<and> ref = \<lparr>itemValue = ValueOf (StructVal s), fieldIdx = fi, fieldVal = f_val fd,
                outputTgt = outputTarget spec\<rparr>"
proof -
  from allEntries_mem [OF ref] obtain it fi fd spec where it: "it \<in> set items"
    and d: "(fi, fd, spec) \<in> set (directives m0 it)"
    and r: "ref = \<lparr>itemValue = ValueOf it, fieldIdx = fi, fieldVal = f_val fd,
                outputTgt = outputTarget spec\<rparr>"
    by blast
  from bv it obtain s where "it = StructVal s"
    by (cases it) (auto simp: byValue_def list_all_iff)
  with it d r show ?thesis by blast
qed

lemma untouched_handle:
  assumes "untouched w w1"
  shows "untouched w (w1\<lparr>log := log w1 @ [EvHandle n vs cx]\<rparr>)"
proof -
  from assms obtain evs where "mem w1 = mem w" "log w1 = log w @ evs" "list_all isHandle evs"
    by (auto simp: untouched_def)
  then have "mem w1 = mem w \<and> log w1 @ [EvHandle n vs cx] = log w @ (evs @ [EvHandle n vs cx])
             \<and> list_all isHandle (evs @ [EvHandle n vs cx])"
    by simp
  then show ?thesis
    unfolding untouched_def by (metis world.select_convs(1,2) world.surjective world.update_convs(2))
qed

lemma untouched_bind:
  assumes bv: "byValue items"
    and ref: "ref \<in> snd ` set (allEntries (mem w) items)"
    and u: "untouched w w1"
    and b: "bindRef res idx ref w1 = (e, w1')"
  shows "untouched w w1' \<and> (\<forall>err. e = Some err \<longrightarrow> byValueFailure (mem w) items err)"
proof -
  from byValue_entry [OF bv ref] obtain s fi fd spec where it: "StructVal s \<in> set items"
    and d: "(fi, fd, spec) \<in> set (directives (mem w) (StructVal s))"
    and r: "ref = \<lparr>itemValue = ValueOf (StructVal s), fieldIdx = fi, fieldVal = f_val fd,
                outputTgt = outputTarget spec\<rparr>"
    by blast
  from planRef_byValue [OF d r, of "mem w1" res idx] b
  have "w1' = w1 \<and> (e = Some (RuntimePanic UnhashableKey) \<or> e = Some (byValueError (fi, fd, spec)))"
    by (auto simp: bindRef_plan split: sum.splits)
  with u it d show ?thesis
    by (auto simp: byValueFailure_def)
qed

lemma untouched_kept:
  assumes bv: "byValue items"
  shows "kept c (snd ` set (allEntries (mem w) items)) (untouched w) (byValueFailure (mem w) items)"
  unfolding kept_def using untouched_handle untouched_bind [OF bv] by blast

text \<open>
  C8, as the code has it. For a batch of plain struct values, in either mode: the store is
  never changed and nothing but handler calls is logged (no field set, no method
  called); an error returned after discovery is the error of binding a collected entry,
  which is \<open>cannot set field\<close> with its target for an entry whose target is a field and the
  addressability error for an entry whose target is a callback (or the panic of a lookup
  with a slice as key); and \<open>Process\<close> does not succeed once an entry was collected.
\<close>

theorem Process_by_value:
  assumes ord: "mapOrder mapRange"
    and bv: "byValue items"
    and run: "Process c mapRange sched items w = (e, w')"
  shows "mem w' = mem w
         \<and> list_all isHandle (newLog w w')
         \<and> (\<forall>err. e = Some err \<longrightarrow>
               byValueFailure (mem w) items err \<or> collectItems c (mem w) items [] = Inl err)
         \<and> (allEntries (mem w) items \<noteq> [] \<longrightarrow> e \<noteq> None)"
proof -
  from Process_kept [OF ord untouched_kept [OF bv] _ run]
  have u: "untouched w w'"
    and q: "\<forall>err. e = Some err \<longrightarrow>
               byValueFailure (mem w) items err \<or> collectItems c (mem w) items [] = Inl err"
    by (auto simp: untouched_def)
  from u have m: "mem w' = mem w" and l: "list_all isHandle (newLog w w')"
    by (auto simp: untouched_def newLog_def)
  have "e \<noteq> None" if ne: "allEntries (mem w) items \<noteq> []"
  proof
    assume "e = None"
    with run have r: "Process c mapRange sched items w = (None, w')" by simp
    from ne have "items \<noteq> []" by auto
    with r obtain aggs where coll: "collectItems c (mem w) items [] = Inr aggs"
      by (cases "collectItems c (mem w) items []") (auto simp: Process_def)
    from Process_success_log [OF ord coll r]
    have "binds (newLog w w') = length (allEntries (mem w) items)" by simp
    moreover from l have "binds (newLog w w') = 0"
      by (simp add: binds_def list_all_iff)
    ultimately show False using ne by simp
  qed
  with m l q show ?thesis by blast
qed

lemma parseTag_f_fnM: "parseTag ''f,fn:M'' = Some \<lparr>funcName = ''f'', outputTarget = ''fn:M''\<rparr>"
  by code_simp

lemma directives_recB_value:
  "directives m (StructVal (recB ''f,B'')) =
     [(0, mkField ''A'' ''f,B'' TInt (VInt 1), \<lparr>funcName = ''f'', outputTarget = ''B''\<rparr>)]"
  by (simp add: directives_def directivesFrom_def recordOf_def derefIfPtr_def recB_def
      mkField_def parseTag_f_B parseTag_empty)

lemma directives_recM_value:
  "directives m (StructVal recM) =
     [(0, mkField ''A'' ''f,fn:M'' TInt (VInt 1), \<lparr>funcName = ''f'', outputTarget = ''fn:M''\<rparr>),
      (1, mkField ''B'' ''f,B'' TInt (VInt 2), \<lparr>funcName = ''f'', outputTarget = ''B''\<rparr>)]"
  by (simp add: directives_def directivesFrom_def recordOf_def derefIfPtr_def recM_def
      mkField_def parseTag_f_B parseTag_f_fnM)

lemma Process_recB_value:
  "Process engF id [] [StructVal (recB ''f,B'')] world0 =
     (Some (CannotSetField ''B''), \<lparr>mem = Map.empty, log = [EvHandle ''f'' [VInt 1] Map.empty]\<rparr>)"
  by (simp add: Process_def world0_def recB_def mkField_def parseTag_f_B parseTag_empty
      engF_def Register_def New_def buildTasks_def runTask_def bindRef_def resolveOut_def
      hSeven_def HasPrefix_def setField_def derefIfPtr_def FieldByName_def CanSet_def Let_def)

text \<open>
  C8 as stated fails: in a batch of one struct value whose first directive is routed to a
  method and whose second directive is routed to a field, an entry with a field as
  target was collected, and \<open>Process\<close> returns the addressability error, not \<open>cannot set
  field\<close>.
\<close>

theorem Process_by_value_first_entry_decides:
  "byValue [StructVal recM]
   \<and> (1, mkField ''B'' ''f,B'' TInt (VInt 2), \<lparr>funcName = ''f'', outputTarget = ''B''\<rparr>)
        \<in> set (directives (mem world0) (StructVal recM))
   \<and> \<not> usesCallback (1, mkField ''B'' ''f,B'' TInt (VInt 2), \<lparr>funcName = ''f'', outputTarget = ''B''\<rparr>)
   \<and> fst (Process engF id [] [StructVal recM] world0) = Some ReceiverNotAddressable"
proof -
  have "fst (Process engF id [] [StructVal recM] world0) = Some ReceiverNotAddressable"
    by (simp add: Process_def world0_def recM_def mkField_def parseTag_f_B parseTag_f_fnM
        engF_def Register_def New_def buildTasks_def runTask_def bindRef_def resolveOut_def
        hSeven_def HasPrefix_def TrimPrefix_def callOutputFunc_def Let_def)
  then show ?thesis
    by (simp add: byValue_def directives_recM_value usesCallback_def HasPrefix_def)
qed

theorem Process_by_value_witness:
  "mapOrder id
   \<and> byValue [StructVal (recB ''f,B'')]
   \<and> Process engF id [] [StructVal (recB ''f,B'')] world0 =
       (Some (CannotSetField ''B''), \<lparr>mem = Map.empty, log = [EvHandle ''f'' [VInt 1] Map.empty]\<rparr>)
   \<and> allEntries (mem world0) [StructVal (recB ''f,B'')] \<noteq> []
   \<and> mem \<lparr>mem = Map.empty, log = [EvHandle ''f'' [VInt 1] Map.empty]\<rparr> = mem world0
   \<and> list_all isHandle
        (newLog world0 \<lparr>mem = Map.empty, log = [EvHandle ''f'' [VInt 1] Map.empty]\<rparr>)
   \<and> byValueFailure (mem world0) [StructVal (recB ''f,B'')] (CannotSetField ''B'')"
proof -
  have bv: "byValue [StructVal (recB ''f,B'')]"
    by (simp add: byValue_def)
  have ne: "allEntries (mem world0) [StructVal (recB ''f,B'')] \<noteq> []"
    by (simp add: allEntries_def directives_recB_value)
  have nd: "collectItems engF (mem world0) [StructVal (recB ''f,B'')] []
              \<noteq> Inl (CannotSetField ''B'')"
    by (simp add: recB_def mkField_def parseTag_f_B parseTag_empty engF_def Register_def New_def)
  note T = Process_by_value [OF mapOrder_id bv Process_recB_value]
  from T have m: "mem \<lparr>mem = Map.empty, log = [EvHandle ''f'' [VInt 1] Map.empty]\<rparr> = mem world0"
    by (rule conjunct1)
  from T have l: "list_all isHandle
        (newLog world0 \<lparr>mem = Map.empty, log = [EvHandle ''f'' [VInt 1] Map.empty]\<rparr>)"
    by blast
  from T nd have f: "byValueFailure (mem world0) [StructVal (recB ''f,B'')] (CannotSetField ''B'')"
    by blast
  from mapOrder_id bv Process_recB_value ne m l f show ?thesis
    by (intro conjI)
qed

section \<open>Resolving the result of an entry\<close>










lemma parseTag_g: "parseTag ''g'' = Some \<lparr>funcName = ''g'', outputTarget = []\<rparr>"
  by code_simp


text \<open>
  Where the code leaves the claim by a slip: the original field value is a slice and the
  result has no entry for the position, so the lookup with the slice as key panics.
\<close>

lemma Process_slice_key_panics:
  "Process engG id [] [Ptr 0] worldS =
     (Some (RuntimePanic UnhashableKey),
      \<lparr>mem = [0 \<mapsto> recS], log = [EvHandle ''g'' [VStrs [''a'']] Map.empty]\<rparr>)"
  by (simp add: hNone_def Process_def worldS_def recS_def mkField_def parseTag_g
      engG_def Register_def New_def buildTasks_def runTask_def bindRef_def resolveOut_def
      Let_def)







section \<open>Sequential mode\<close>


lemma parseTag_f: "parseTag ''f'' = Some \<lparr>funcName = ''f'', outputTarget = []\<rparr>"
  by code_simp

lemma mapOrder_rev: "mapOrder rev"
  by (simp add: mapOrder_def)





section \<open>Every handler once\<close>

lemma keys_addEntries: "fst ` set (addEntries aggs es) = fst ` set aggs \<union> fst ` set es"
proof (induction es arbitrary: aggs)
  case Nil
  show ?case by simp
next
  case (Cons x es)
  obtain n r where x: "x = (n, r)" by (cases x)
  show ?case
    unfolding x by (simp add: Cons.IH names_appendRef)
qed

lemma distinct_appendRef:
  "distinct (map fst aggs) \<Longrightarrow> distinct (map fst (appendRef n r aggs))"
proof (induction aggs)
  case Nil
  show ?case by simp
next
  case (Cons x aggs)
  obtain k rs where x: "x = (k, rs)" by (cases x)
  from Cons show ?case
    unfolding x by (cases "k = n") (auto simp: names_appendRef)
qed

lemma distinct_addEntries:
  "distinct (map fst aggs) \<Longrightarrow> distinct (map fst (addEntries aggs es))"
proof (induction es arbitrary: aggs)
  case Nil
  then show ?case by simp
next
  case (Cons x es)
  obtain n r where x: "x = (n, r)" by (cases x)
  from Cons.prems show ?case
    unfolding x by (simp add: Cons.IH distinct_appendRef)
qed

lemma map_of_appendRef:
  "map_of (appendRef n r aggs) = (map_of aggs)(n \<mapsto> refsOf aggs n @ [r])"
proof (induction aggs)
  case Nil
  show ?case by (simp add: refsOf_def)
next
  case (Cons x aggs)
  obtain k rs where x: "x = (k, rs)" by (cases x)
  show ?case
  proof (cases "k = n")
    case True
    then show ?thesis unfolding x by (auto simp: refsOf_def)
  next
    case False
    then show ?thesis unfolding x by (auto simp: Cons.IH refsOf_def)
  qed
qed

lemma refsOf_appendRef:
  "refsOf (appendRef n r aggs) k = (if k = n then refsOf aggs n @ [r] else refsOf aggs k)"
  by (simp add: refsOf_def map_of_appendRef)

lemma refsOf_addEntries:
  "refsOf (addEntries aggs es) k = refsOf aggs k @ map snd (filter (\<lambda>(n, r). n = k) es)"
proof (induction es arbitrary: aggs)
  case Nil
  show ?case by simp
next
  case (Cons x es)
  obtain n r where x: "x = (n, r)" by (cases x)
  show ?case
    unfolding x by (simp add: Cons.IH refsOf_appendRef)
qed

lemma entry_refsOf:
  "distinct (map fst aggs) \<Longrightarrow> (n, rs) \<in> set aggs \<Longrightarrow> refsOf aggs n = rs"
  by (simp add: refsOf_def)

lemma aggs_as_map:
  assumes d: "distinct (map fst aggs)"
  shows "mset aggs = mset (map (\<lambda>n. (n, refsOf aggs n)) (remdups (map fst aggs)))"
proof -
  from d have "map (\<lambda>n. (n, refsOf aggs n)) (remdups (map fst aggs))
                 = map (\<lambda>n. (n, refsOf aggs n)) (map fst aggs)"
    by (simp add: distinct_remdups_id)
  also have "\<dots> = aggs"
    using d by (intro nth_equalityI) (auto simp: entry_refsOf [OF d] prod_eq_iff)
  finally show ?thesis by simp
qed

lemma handles_of_aggs:
  assumes d: "distinct (map fst aggs)"
  shows "image_mset (\<lambda>(n, rs). F n rs) (mset aggs)
           = image_mset (\<lambda>n. F n (refsOf aggs n)) (mset_set (fst ` set aggs))"
proof -
  have "image_mset (\<lambda>(n, rs). F n rs) (mset aggs)
          = image_mset (\<lambda>(n, rs). F n rs)
              (mset (map (\<lambda>n. (n, refsOf aggs n)) (remdups (map fst aggs))))"
    using aggs_as_map [OF d] by simp
  also have "\<dots> = image_mset (\<lambda>n. F n (refsOf aggs n)) (mset (remdups (map fst aggs)))"
    by (simp add: image_mset.compositionality comp_def)
  also have "mset (remdups (map fst aggs)) = mset_set (fst ` set aggs)"
    by (metis distinct_remdups mset_set_set set_remdups set_map)
  finally show ?thesis .
qed

lemma collected_entries:
  "collected m items = map (\<lambda>(n, r). (n, fieldVal r)) (allEntries m items)"
  by (simp add: collected_def allEntries_def entryOf_def map_concat comp_def case_prod_unfold)

lemma valuesFor_entries:
  "valuesFor m items n = map fieldVal (map snd (filter (\<lambda>(k, r). k = n) (allEntries m items)))"
  by (simp add: valuesFor_def collected_entries filter_map comp_def case_prod_unfold)

text \<open>
  C2, as the code has it. When \<open>Process\<close> returns success, in either mode, the handler
  calls it logged are, as a multiset, one call for each distinct function name of the
  directives of the batch, with the values collected for that name from all fields and
  all records in the order of discovery, and with the context of the engine: each handler
  was invoked exactly once, and no other.
\<close>

theorem Process_invokes_each_handler_once:
  assumes ord: "mapOrder mapRange"
    and run: "Process c mapRange sched items w = (None, w')"
  shows "handles (newLog w w') =
           mset (map (\<lambda>n. EvHandle n (valuesFor (mem w) items n) (combineCtx c))
                  (remdups (map fst (collected (mem w) items))))"
proof -
  obtain aggs where coll: "collectItems c (mem w) items [] = Inr aggs"
  proof (cases "collectItems c (mem w) items []")
    case (Inl e0)
    with run have "items = []" by (auto simp: Process_def split: if_splits)
    with Inl show ?thesis by simp
  qed
  let ?es = "allEntries (mem w) items"
  from collectItems_Inr [OF coll] have aggs: "aggs = addEntries [] ?es" .
  have d: "distinct (map fst aggs)"
    unfolding aggs by (rule distinct_addEntries) simp
  have keys: "fst ` set aggs = set (map fst (collected (mem w) items))"
    unfolding aggs by (simp add: keys_addEntries collected_entries image_image case_prod_unfold)
  have vals: "map fieldVal (refsOf aggs n) = valuesFor (mem w) items n" for n
  proof -
    have "refsOf ([] :: aggregates) n = []" by (simp add: refsOf_def)
    then show ?thesis
      unfolding aggs refsOf_addEntries valuesFor_entries by simp
  qed
  have "handles (newLog w w') = mset (map (handleOf c) (buildTasks mapRange aggs))"
    using Process_success_log [OF ord coll run] by simp
  also have "\<dots> = image_mset (\<lambda>(n, rs). EvHandle n (map fieldVal rs) (combineCtx c)) (mset aggs)"
    using mapOrder_image [OF ord, of "\<lambda>(n, rs). EvHandle n (map fieldVal rs) (combineCtx c)" aggs]
    by (simp add: buildTasks_def handleOf_def comp_def case_prod_unfold)
  also have "\<dots> = image_mset (\<lambda>n. EvHandle n (map fieldVal (refsOf aggs n)) (combineCtx c))
                      (mset_set (fst ` set aggs))"
    by (rule handles_of_aggs [OF d])
  also have "\<dots> = image_mset (\<lambda>n. EvHandle n (valuesFor (mem w) items n) (combineCtx c))
                      (mset (remdups (map fst (collected (mem w) items))))"
    unfolding vals keys by (metis distinct_remdups mset_set_set set_remdups)
  finally show ?thesis by simp
qed

lemma parseTag_f_Nope: "parseTag ''f,Nope'' = Some \<lparr>funcName = ''f'', outputTarget = ''Nope''\<rparr>"
  by code_simp

lemma collect_worldN:
  "collectItems engFG (mem worldN) [Ptr 0] [] =
     Inr [(''f'', [\<lparr>itemValue = PtrV 0, fieldIdx = 0, fieldVal = VInt 1, outputTgt = ''Nope''\<rparr>]),
          (''g'', [\<lparr>itemValue = PtrV 0, fieldIdx = 1, fieldVal = VInt 2, outputTgt = []\<rparr>])]"
  by (simp add: worldN_def recN_def mkField_def parseTag_f_Nope parseTag_g engFG_def engF_def
      Register_def New_def Let_def)

lemma Process_worldN:
  "Process engFG id [] [Ptr 0] worldN =
     (Some (CannotSetField ''Nope''),
      \<lparr>mem = [0 \<mapsto> recN], log = [EvHandle ''f'' [VInt 1] Map.empty]\<rparr>)"
  by (simp only: Process_def collect_worldN,
      simp add: buildTasks_def runTask_def bindRef_def resolveOut_def
      engFG_def engF_def Register_def New_def hSeven_def hNone_def worldN_def recN_def mkField_def
      HasPrefix_def setField_def derefIfPtr_def refNameByIndex_def FieldByName_def CanSet_def
      AssignableTo_def SetValue_def Let_def)

lemma collected_worldN: "collected (mem worldN) [Ptr 0] = [(''f'', VInt 1), (''g'', VInt 2)]"
  by (simp add: collected_def directives_def directivesFrom_def recordOf_def derefIfPtr_def
      worldN_def recN_def mkField_def parseTag_f_Nope parseTag_g)

text \<open>
  C2 as stated fails: every function named by a directive of the batch is registered,
  and the handler of \<open>g\<close> is never invoked, because the task of \<open>f\<close> runs first and fails
  to bind (its target field does not exist), which ends the sequential run.
\<close>

theorem Process_error_skips_handlers:
  "list_all (\<lambda>(n, v). aggregateHandlers engFG n \<noteq> None) (collected (mem worldN) [Ptr 0])
   \<and> ''g'' \<in> set (map fst (collected (mem worldN) [Ptr 0]))
   \<and> Process engFG id [] [Ptr 0] worldN =
       (Some (CannotSetField ''Nope''),
        \<lparr>mem = [0 \<mapsto> recN], log = [EvHandle ''f'' [VInt 1] Map.empty]\<rparr>)"
proof -
  have "list_all (\<lambda>(n, v). aggregateHandlers engFG n \<noteq> None) (collected (mem worldN) [Ptr 0])"
    by (simp add: collected_worldN engFG_def engF_def Register_def New_def)
  moreover have "''g'' \<in> set (map fst (collected (mem worldN) [Ptr 0]))"
    by (simp add: collected_worldN)
  ultimately show ?thesis using Process_worldN by simp
qed

lemma collect_worldFG2:
  "collectItems engFG (mem worldFG2) [Ptr 0, Ptr 2] [] =
     Inr [(''f'', [\<lparr>itemValue = PtrV 0, fieldIdx = 0, fieldVal = VInt 1, outputTgt = []\<rparr>,
                   \<lparr>itemValue = PtrV 2, fieldIdx = 0, fieldVal = VInt 1, outputTgt = []\<rparr>]),
          (''g'', [\<lparr>itemValue = PtrV 0, fieldIdx = 1, fieldVal = VInt 2, outputTgt = []\<rparr>,
                   \<lparr>itemValue = PtrV 2, fieldIdx = 1, fieldVal = VInt 2, outputTgt = []\<rparr>])]"
  by (simp add: worldFG2_def recFG_def mkField_def parseTag_f parseTag_g engFG_def engF_def
      Register_def New_def Let_def)

lemma Process_worldFG2:
  "fst (Process engFG rev [] [Ptr 0, Ptr 2] worldFG2) = None"
  by (simp only: Process_def collect_worldFG2,
      simp add: buildTasks_def runTask_def bindRef_def resolveOut_def
      engFG_def engF_def Register_def New_def hSeven_def hNone_def worldFG2_def recFG_def mkField_def
      HasPrefix_def setField_def derefIfPtr_def refNameByIndex_def FieldByName_def CanSet_def
      AssignableTo_def SetValue_def Let_def)

lemma collected_worldFG2:
  "collected (mem worldFG2) [Ptr 0, Ptr 2] =
     [(''f'', VInt 1), (''g'', VInt 2), (''f'', VInt 1), (''g'', VInt 2)]"
  by (simp add: collected_def directives_def directivesFrom_def recordOf_def derefIfPtr_def
      worldFG2_def recFG_def mkField_def parseTag_f parseTag_g)

theorem Process_invokes_each_handler_once_witness:
  "mapOrder rev
   \<and> fst (Process engFG rev [] [Ptr 0, Ptr 2] worldFG2) = None
   \<and> handles (newLog worldFG2 (snd (Process engFG rev [] [Ptr 0, Ptr 2] worldFG2))) =
       {#EvHandle ''f'' [VInt 1, VInt 1] Map.empty, EvHandle ''g'' [VInt 2, VInt 2] Map.empty#}"
proof -
  have run: "Process engFG rev [] [Ptr 0, Ptr 2] worldFG2
      = (None, snd (Process engFG rev [] [Ptr 0, Ptr 2] worldFG2))"
    using Process_worldFG2 by (simp add: prod_eq_iff)
  have cx: "combineCtx engFG = Map.empty"
    by (simp add: engFG_def engF_def Register_def New_def)
  from Process_invokes_each_handler_once [OF mapOrder_rev run]
  have "handles (newLog worldFG2 (snd (Process engFG rev [] [Ptr 0, Ptr 2] worldFG2))) =
       {#EvHandle ''f'' [VInt 1, VInt 1] Map.empty, EvHandle ''g'' [VInt 2, VInt 2] Map.empty#}"
    by (simp add: collected_worldFG2 valuesFor_def cx)
  with mapOrder_rev Process_worldFG2 show ?thesis by simp
qed

section \<open>Two runs side by side\<close>

lemma keptBothD_handle:
  "keptBoth c R Rel \<Longrightarrow> Rel u v \<Longrightarrow>
   Rel (u\<lparr>log := log u @ [EvHandle n vs (combineCtx c)]\<rparr>)
       (v\<lparr>log := log v @ [EvHandle n vs (combineCtx c)]\<rparr>)"
  by (simp add: keptBoth_def)

lemma keptBothD_bind:
  "keptBoth c R Rel \<Longrightarrow> ref \<in> R \<Longrightarrow> Rel u v \<Longrightarrow> bindRef res idx ref u = (e, u') \<Longrightarrow>
   \<exists>v'. bindRef res idx ref v = (e, v') \<and> Rel u' v'"
  unfolding keptBoth_def by blast

lemma bindRefs_both:
  assumes k: "keptBoth c R Rel"
  shows "snd ` set todo \<subseteq> R \<Longrightarrow> Rel u v \<Longrightarrow> bindRefs result todo u = (e, u') \<Longrightarrow>
         \<exists>v'. bindRefs result todo v = (e, v') \<and> Rel u' v'"
proof (induction todo arbitrary: u v)
  case Nil
  then show ?case by simp
next
  case (Cons x todo)
  obtain idx ref where x: "x = (idx, ref)" by (cases x)
  obtain e1 u1 where b: "bindRef result idx ref u = (e1, u1)" by (cases "bindRef result idx ref u")
  from Cons.prems x have "ref \<in> R" by auto
  from keptBothD_bind [OF k this Cons.prems(2) b] obtain v1 where
    bv: "bindRef result idx ref v = (e1, v1)" and r1: "Rel u1 v1"
    by blast
  show ?case
  proof (cases e1)
    case None
    with Cons.prems(3) x b have r: "bindRefs result todo u1 = (e, u')" by simp
    from Cons.prems(1) have "snd ` set todo \<subseteq> R" by auto
    from Cons.IH [OF this r1 r] obtain v' where "bindRefs result todo v1 = (e, v')" "Rel u' v'"
      by blast
    with None x bv show ?thesis by simp
  next
    case (Some e0)
    with Cons.prems(3) x b have "u' = u1" "e = e1" by simp_all
    with Some x bv r1 show ?thesis by simp
  qed
qed

lemma runTask_both:
  assumes k: "keptBoth c R Rel"
    and refs: "set (t_refs task) \<subseteq> R"
    and rel: "Rel u v"
    and run: "runTask c task u = (e, u')"
  shows "\<exists>v'. runTask c task v = (e, v') \<and> Rel u' v'"
proof (cases "aggregateHandlers c (t_name task)")
  case None
  with run rel show ?thesis by (simp add: runTask_def)
next
  case (Some h)
  with run have b: "bindRefs (h (t_values task) (combineCtx c)) (enumerate 0 (t_refs task))
            (u\<lparr>log := log u @ [EvHandle (t_name task) (t_values task) (combineCtx c)]\<rparr>) = (e, u')"
    by (simp add: runTask_def)
  from refs have r: "snd ` set (enumerate 0 (t_refs task)) \<subseteq> R"
    by (simp add: snd_enumerate)
  from bindRefs_both [OF k r keptBothD_handle [OF k rel] b] Some show ?thesis
    by (simp add: runTask_def)
qed

lemma runTasks_both:
  assumes k: "keptBoth c R Rel"
  shows "(\<Union>t\<in>set tasks. set (t_refs t)) \<subseteq> R \<Longrightarrow> Rel u v \<Longrightarrow> runTasks c tasks u = (e, u') \<Longrightarrow>
         \<exists>v'. runTasks c tasks v = (e, v') \<and> Rel u' v'"
proof (induction tasks arbitrary: u v)
  case Nil
  then show ?case by simp
next
  case (Cons task tasks)
  obtain e1 u1 where r: "runTask c task u = (e1, u1)" by (cases "runTask c task u")
  from Cons.prems(1) have "set (t_refs task) \<subseteq> R" by simp
  from runTask_both [OF k this Cons.prems(2) r] obtain v1 where
    rv: "runTask c task v = (e1, v1)" and r1: "Rel u1 v1"
    by blast
  show ?case
  proof (cases e1)
    case None
    with Cons.prems(3) r have r2: "runTasks c tasks u1 = (e, u')" by simp
    from Cons.prems(1) have s: "(\<Union>t\<in>set tasks. set (t_refs t)) \<subseteq> R" by simp
    from Cons.IH [OF s r1 r2] obtain v' where "runTasks c tasks v1 = (e, v')" "Rel u' v'"
      by blast
    with None rv show ?thesis by simp
  next
    case (Some e0)
    with Cons.prems(3) r have "u' = u1" "e = e1" by simp_all
    with Some rv r1 show ?thesis by simp
  qed
qed

lemma finish_both:
  assumes k: "keptBoth c R Rel"
    and refs: "threadRefs th \<subseteq> R"
    and rel: "Rel u v"
    and run: "finish c th u = (e, u')"
  shows "\<exists>v'. finish c th v = (e, v') \<and> Rel u' v'"
proof (cases th)
  case (Fresh task)
  from refs Fresh have r: "set (t_refs task) \<subseteq> R" by simp
  from run Fresh have "runTask c task u = (e, u')" by simp
  from runTask_both [OF k r rel this] Fresh show ?thesis by simp
next
  case (Running result todo)
  from refs Running have r: "snd ` set todo \<subseteq> R" by simp
  from run Running have "bindRefs result todo u = (e, u')" by simp
  from bindRefs_both [OF k r rel this] Running show ?thesis by simp
next
  case Finished
  with run rel show ?thesis by simp
qed

lemma drain_both:
  assumes k: "keptBoth c R Rel"
  shows "(\<Union>th\<in>set ths. threadRefs th) \<subseteq> R \<Longrightarrow> Rel u v \<Longrightarrow> drain c ths fe u = (e, u') \<Longrightarrow>
         \<exists>v'. drain c ths fe v = (e, v') \<and> Rel u' v'"
proof (induction ths arbitrary: u v fe)
  case Nil
  then show ?case by simp
next
  case (Cons th ths)
  obtain e1 u1 where r: "finish c th u = (e1, u1)" by (cases "finish c th u")
  from Cons.prems(1) have "threadRefs th \<subseteq> R" by simp
  from finish_both [OF k this Cons.prems(2) r] obtain v1 where
    rv: "finish c th v = (e1, v1)" and r1: "Rel u1 v1"
    by blast
  from Cons.prems(1) have sub: "(\<Union>th\<in>set ths. threadRefs th) \<subseteq> R" by simp
  show ?case
  proof (cases e1)
    case None
    with Cons.prems(3) r have "drain c ths fe u1 = (e, u')" by simp
    from Cons.IH [OF sub r1 this] obtain v' where "drain c ths fe v1 = (e, v')" "Rel u' v'"
      by blast
    with None rv show ?thesis by simp
  next
    case (Some e0)
    show ?thesis
    proof (cases "isPanic e0")
      case True
      with Some Cons.prems(3) r have "u' = u1" "e = Some e0" by simp_all
      with True Some rv r1 show ?thesis by simp
    next
      case False
      with Some Cons.prems(3) r have "drain c ths (keepFirst fe e0) u1 = (e, u')" by simp
      from Cons.IH [OF sub r1 this] obtain v' where
        "drain c ths (keepFirst fe e0) v1 = (e, v')" "Rel u' v'"
        by blast
      with False Some rv show ?thesis by simp
    qed
  qed
qed

lemma stepThread_both:
  assumes k: "keptBoth c R Rel"
    and refs: "threadRefs th \<subseteq> R"
    and rel: "Rel u v"
    and run: "stepThread c th u = (th', e, u')"
  shows "\<exists>v'. stepThread c th v = (th', e, v') \<and> Rel u' v'"
proof (cases th)
  case (Fresh task)
  show ?thesis
  proof (cases "aggregateHandlers c (t_name task)")
    case None
    with Fresh run rel show ?thesis by simp
  next
    case (Some h)
    with Fresh run
    have "u' = u\<lparr>log := log u @ [EvHandle (t_name task) (t_values task) (combineCtx c)]\<rparr>"
      and "th' = Running (h (t_values task) (combineCtx c)) (enumerate 0 (t_refs task))"
      and "e = None"
      by simp_all
    with keptBothD_handle [OF k rel] Fresh Some show ?thesis by simp
  qed
next
  case (Running result todo)
  show ?thesis
  proof (cases todo)
    case Nil
    with Running run rel show ?thesis by simp
  next
    case (Cons x rest)
    obtain idx ref where x: "x = (idx, ref)" by (cases x)
    obtain e1 u1 where b: "bindRef result idx ref u = (e1, u1)"
      by (cases "bindRef result idx ref u")
    from refs Running Cons x have "ref \<in> R" by simp
    from keptBothD_bind [OF k this rel b] obtain v1 where
      bv: "bindRef result idx ref v = (e1, v1)" and r1: "Rel u1 v1"
      by blast
    show ?thesis
    proof (cases e1)
      case None
      with run Running Cons x b have "u' = u1" "th' = Running result rest" "e = None"
        by simp_all
      with None Running Cons x bv r1 show ?thesis by simp
    next
      case (Some e0)
      with run Running Cons x b have "u' = u1" "th' = Finished" "e = e1"
        by simp_all
      with Some Running Cons x bv r1 show ?thesis by simp
    qed
  qed
next
  case Finished
  with run rel show ?thesis by simp
qed

lemma stepThread_refs:
  assumes s: "stepThread c th u = (th', e, u')"
  shows "threadRefs th' \<subseteq> threadRefs th"
proof (cases th)
  case (Fresh task)
  with s show ?thesis
    by (auto simp: snd_enumerate split: option.splits)
next
  case (Running result todo)
  with s show ?thesis
    by (cases todo) (auto split: option.splits prod.splits)
next
  case Finished
  with s show ?thesis by auto
qed

lemma runConc_both:
  assumes k: "keptBoth c R Rel"
  shows "(\<Union>th\<in>set ths. threadRefs th) \<subseteq> R \<Longrightarrow> Rel u v \<Longrightarrow>
         runConc c sched ths fe u = (e, u') \<Longrightarrow>
         \<exists>v'. runConc c sched ths fe v = (e, v') \<and> Rel u' v'"
proof (induction sched arbitrary: ths fe u v)
  case Nil
  from Nil(3) have "drain c ths fe u = (e, u')" by simp
  from drain_both [OF k Nil(1,2) this] show ?case by simp
next
  case (Cons i sched)
  show ?case
  proof (cases "i < length ths")
    case False
    with Cons.prems(3) have "runConc c sched ths fe u = (e, u')" by simp
    from Cons.IH [OF Cons.prems(1,2) this] False show ?thesis by simp
  next
    case True
    obtain th' e1 u1 where s: "stepThread c (ths ! i) u = (th', e1, u1)"
      by (cases "stepThread c (ths ! i) u")
    from True Cons.prems(1) have ri: "threadRefs (ths ! i) \<subseteq> R"
      by (meson UN_subset_iff nth_mem)
    from stepThread_both [OF k ri Cons.prems(2) s] obtain v1 where
      sv: "stepThread c (ths ! i) v = (th', e1, v1)" and r1: "Rel u1 v1"
      by blast
    from stepThread_refs [OF s] ri have "threadRefs th' \<subseteq> R" by blast
    from threadRefs_update [OF Cons.prems(1) this]
    have sub: "(\<Union>th\<in>set (ths[i := th']). threadRefs th) \<subseteq> R" .
    show ?thesis
    proof (cases e1)
      case None
      with Cons.prems(3) True s have "runConc c sched (ths[i := th']) fe u1 = (e, u')" by simp
      from Cons.IH [OF sub r1 this] obtain v' where
        "runConc c sched (ths[i := th']) fe v1 = (e, v')" "Rel u' v'"
        by blast
      with None True sv show ?thesis by simp
    next
      case (Some e0)
      show ?thesis
      proof (cases "isPanic e0")
        case pan: True
        with Some Cons.prems(3) True s have "u' = u1" "e = Some e0" by simp_all
        with pan Some True sv r1 show ?thesis by simp
      next
        case False
        with Some Cons.prems(3) True s
        have "runConc c sched (ths[i := th']) (keepFirst fe e0) u1 = (e, u')" by simp
        from Cons.IH [OF sub r1 this] obtain v' where
          "runConc c sched (ths[i := th']) (keepFirst fe e0) v1 = (e, v')" "Rel u' v'"
          by blast
        with False Some True sv show ?thesis by simp
      qed
    qed
  qed
qed

text \<open>
  Two calls of \<open>Process\<close> on worlds that are related, with the same outcome of discovery,
  end with the same error and in related worlds.
\<close>

lemma Process_both:
  assumes ord: "mapOrder mapRange"
    and same: "collectItems c (mem v) items [] = collectItems c (mem u) items []"
    and k: "keptBoth c (snd ` set (allEntries (mem u) items)) Rel"
    and rel: "Rel u v"
    and run: "Process c mapRange sched items u = (e, u')"
  shows "\<exists>v'. Process c mapRange sched items v = (e, v') \<and> (Rel u' v' \<or> (u' = u \<and> v' = v))"
proof (cases "items = []")
  case True
  with run show ?thesis by (simp add: Process_def)
next
  case False
  show ?thesis
  proof (cases "collectItems c (mem u) items []")
    case (Inl e0)
    with run False same show ?thesis by (auto simp: Process_def)
  next
    case (Inr aggs)
    from collectItems_Inr [OF Inr] have "refsIn aggs = snd ` set (allEntries (mem u) items)"
      by (simp add: refsIn_addEntries)
    with refs_buildTasks [OF ord, of aggs]
    have refs: "(\<Union>t\<in>set (buildTasks mapRange aggs). set (t_refs t))
                  \<subseteq> snd ` set (allEntries (mem u) items)"
      by simp
    show ?thesis
    proof (cases "concurrent c")
      case True
      with run False Inr
      have r: "runConc c sched (map Fresh (buildTasks mapRange aggs)) None u = (e, u')"
        by (simp add: Process_def)
      from refs have "(\<Union>th\<in>set (map Fresh (buildTasks mapRange aggs)). threadRefs th)
                  \<subseteq> snd ` set (allEntries (mem u) items)"
        by auto
      from runConc_both [OF k this rel r] True False Inr same show ?thesis
        by (auto simp: Process_def)
    next
      case seq: False
      with run False Inr
      have r: "runTasks c (buildTasks mapRange aggs) u = (e, u')"
        by (simp add: Process_def)
      from runTasks_both [OF k refs rel r] seq False Inr same show ?thesis
        by (auto simp: Process_def)
    qed
  qed
qed

section \<open>Running \<open>Process\<close> a second time\<close>

lemma setByName_pair:
  "map blank xs = map blank ys \<Longrightarrow> i < length xs \<Longrightarrow>
   setByName n v xs ! i = setByName n v ys ! i
   \<or> (setByName n v xs ! i = xs ! i \<and> setByName n v ys ! i = ys ! i)"
proof (induction xs arbitrary: ys i)
  case Nil
  then show ?case by simp
next
  case (Cons x xs)
  from Cons.prems(1) obtain y ys' where ys: "ys = y # ys'" and b: "blank x = blank y"
    and rest: "map blank xs = map blank ys'"
    by (cases ys) auto
  from b have nm: "f_name x = f_name y" by (simp add: blank_eq)
  show ?case
  proof (cases "f_name x = n")
    case True
    from b have "x\<lparr>f_val := v\<rparr> = y\<lparr>f_val := v\<rparr>"
      by (cases x, cases y) (simp add: blank_def)
    with True nm ys show ?thesis by (cases i) simp_all
  next
    case False
    show ?thesis
    proof (cases i)
      case 0
      with False nm ys show ?thesis by simp
    next
      case (Suc j)
      with Cons.prems(2) have "j < length xs" by simp
      from Cons.IH [OF rest this] False nm ys Suc show ?thesis by simp
    qed
  qed
qed

lemma settled_log: "settled w1 u v \<Longrightarrow> settled w1 (u\<lparr>log := l\<rparr>) (v\<lparr>log := l'\<rparr>)"
  by (simp add: settled_def)

lemma settled_step:
  assumes nc: "noCallbacks (mem w) items"
    and ref: "ref \<in> snd ` set (allEntries (mem w) items)"
    and rel: "settled w1 u v"
    and b: "bindRef res idx ref u = (e, u')"
  shows "\<exists>v'. bindRef res idx ref v = (e, v') \<and> settled w1 u' v'"
proof -
  from rel have ss: "sameShape (mem u) (mem v)" by (simp add: settled_def)
  have pl: "planRef (mem v) res idx ref = planRef (mem u) res idx ref"
    by (rule sameShape_planRef [OF sameShape_sym [OF ss]])
  show ?thesis
  proof (cases "planRef (mem u) res idx ref")
    case (Inl err)
    with b pl rel show ?thesis by (simp add: bindRef_plan)
  next
    case (Inr x)
    with b have u': "u' = applyOp x u" and e: "e = None" by (simp_all add: bindRef_plan)
    from Inr pl have bv: "bindRef res idx ref v = (None, applyOp x v)"
      by (simp add: bindRef_plan)
    from allEntries_mem [OF ref] obtain it fi fd spec where it: "it \<in> set items"
      and d: "(fi, fd, spec) \<in> set (directives (mem w) it)"
      and r: "ref = \<lparr>itemValue = ValueOf it, fieldIdx = fi, fieldVal = f_val fd,
                  outputTgt = outputTarget spec\<rparr>"
      by blast
    from nc it d have "\<not> HasPrefix (outputTarget spec) ''fn:''"
      by (auto simp: noCallbacks_def list_all_iff usesCallback_def)
    with r have nfn: "\<not> HasPrefix (outputTgt ref) ''fn:''" by simp
    from planRef_Inr [OF Inr] nfn obtain a n val where x: "x = OpSet a n val"
      and ma: "mem u a \<noteq> None"
      by blast
    from ma obtain su where su: "mem u a = Some su" by auto
    from sameShape_Some [OF ss su] obtain sv where sv: "mem v a = Some sv"
      and bl: "map blank (s_fields sv) = map blank (s_fields su)"
      by blast
    have mu: "mem (applyOp x u) = (mem u)(a \<mapsto> su\<lparr>s_fields := setByName n val (s_fields su)\<rparr>)"
      unfolding x mem_applyOp_Set using su by simp
    have mv: "mem (applyOp x v) = (mem v)(a \<mapsto> sv\<lparr>s_fields := setByName n val (s_fields sv)\<rparr>)"
      unfolding x mem_applyOp_Set using sv by simp
    have ss': "sameShape (mem (applyOp x u)) (mem (applyOp x v))"
      by (rule sameShape_trans [OF sameShape_sym [OF sameShape_applyOp]
            sameShape_trans [OF ss sameShape_applyOp]])
    have "s_fields tv ! i = s_fields tu ! i \<or> s_fields tv ! i = s_fields s1 ! i"
      if tu: "mem (applyOp x u) b = Some tu" and tv: "mem (applyOp x v) b = Some tv"
        and s1: "mem w1 b = Some s1" and i: "i < length (s_fields tv)" for b tu tv s1 i
    proof (cases "b = a")
      case False
      with tu tv mu mv have "mem u b = Some tu" "mem v b = Some tv" by simp_all
      with rel s1 i show ?thesis unfolding settled_def by blast
    next
      case True
      with tu mu have tu': "s_fields tu = setByName n val (s_fields su)" by auto
      from True tv mv have tv': "s_fields tv = setByName n val (s_fields sv)" by auto
      from i tv' have i': "i < length (s_fields sv)" by simp
      from setByName_pair [OF bl i', of n val]
      show ?thesis
      proof
        assume "setByName n val (s_fields sv) ! i = setByName n val (s_fields su) ! i"
        with tu' tv' show ?thesis by simp
      next
        assume same: "setByName n val (s_fields sv) ! i = s_fields sv ! i
                  \<and> setByName n val (s_fields su) ! i = s_fields su ! i"
        from rel su sv s1 i' True
        have "s_fields sv ! i = s_fields su ! i \<or> s_fields sv ! i = s_fields s1 ! i"
          unfolding settled_def by blast
        with same tu' tv' show ?thesis by simp
      qed
    qed
    with ss' have "settled w1 (applyOp x u) (applyOp x v)"
      unfolding settled_def by blast
    with bv u' e show ?thesis by simp
  qed
qed

lemma settled_kept:
  "noCallbacks (mem w) items \<Longrightarrow>
   keptBoth c (snd ` set (allEntries (mem w) items)) (settled w1)"
  unfolding keptBoth_def using settled_step settled_log by blast

lemma gstruct_eqI:
  "shapeOf s = shapeOf s' \<Longrightarrow> s_fields s = s_fields s' \<Longrightarrow> s = s'"
  by (cases s, cases s') (simp add: shapeOf_def)

lemma settled_final:
  assumes rel: "settled w1 w1 w2"
  shows "mem w2 = mem w1"
proof
  fix a
  from rel have ss: "sameShape (mem w1) (mem w2)" by (simp add: settled_def)
  show "mem w2 a = mem w1 a"
  proof (cases "mem w1 a")
    case None
    with sameShape_None [OF ss, of a] show ?thesis by simp
  next
    case (Some s1)
    from sameShape_Some [OF ss Some] obtain s2 where s2: "mem w2 a = Some s2"
      and bl: "map blank (s_fields s2) = map blank (s_fields s1)"
      by blast
    from ss Some s2 have sh: "shapeOf s2 = shapeOf s1"
      using sameShape_def [of "mem w1" "mem w2"] by (metis map_option_eq_Some option.sel)
    have "s_fields s2 ! i = s_fields s1 ! i" if "i < length (s_fields s2)" for i
      using rel Some s2 that unfolding settled_def by blast
    with blank_map_length [OF bl] have "s_fields s2 = s_fields s1"
      by (simp add: nth_equalityI)
    from gstruct_eqI [OF sh this] s2 Some show ?thesis by simp
  qed
qed

text \<open>Discovery reads the shape of the records and the values of the tagged fields only.\<close>

lemma collectFields_same:
  "map blank fds1 = map blank fds \<Longrightarrow>
   (\<And>i. i < length fds \<Longrightarrow> parseTag (f_tag (fds ! i)) \<noteq> None \<Longrightarrow> fds1 ! i = fds ! i) \<Longrightarrow>
   collectFields c elem fds1 fi aggs = collectFields c elem fds fi aggs"
proof (induction fds arbitrary: fds1 fi aggs)
  case Nil
  then show ?case by simp
next
  case (Cons fd fds)
  from Cons.prems(1) obtain fd1 rest1 where f1: "fds1 = fd1 # rest1"
    and b: "blank fd1 = blank fd" and rest: "map blank rest1 = map blank fds"
    by (cases fds1) auto
  have tl: "rest1 ! i = fds ! i" if "i < length fds" "parseTag (f_tag (fds ! i)) \<noteq> None" for i
    using Cons.prems(2) [of "Suc i"] that f1 by simp
  have ih: "collectFields c elem rest1 fi' aggs' = collectFields c elem fds fi' aggs'"
    for fi' aggs'
    by (rule Cons.IH [OF rest tl])
  show ?case
  proof (cases "parseTag (f_tag fd)")
    case None
    with b have "parseTag (f_tag fd1) = None" by (simp add: blank_eq)
    with None f1 ih show ?thesis by simp
  next
    case (Some spec)
    with Cons.prems(2) [of 0] f1 have "fd1 = fd" by simp
    with f1 ih show ?thesis by (simp split: option.splits)
  qed
qed

lemma collectItems_same:
  assumes ss: "sameShape m m1"
  shows "(\<And>a s s1 i. Ptr a \<in> set items \<Longrightarrow> m a = Some s \<Longrightarrow> m1 a = Some s1 \<Longrightarrow>
            i < length (s_fields s) \<Longrightarrow> parseTag (f_tag (s_fields s ! i)) \<noteq> None \<Longrightarrow>
            s_fields s1 ! i = s_fields s ! i) \<Longrightarrow>
         collectItems c m1 items aggs = collectItems c m items aggs"
proof (induction items arbitrary: aggs)
  case Nil
  show ?case by simp
next
  case (Cons it its)
  have ih: "collectItems c m1 its aggs' = collectItems c m its aggs'" for aggs'
    by (rule Cons.IH) (rule Cons.prems, simp_all)
  have rec: "recordOf m1 it = recordOf m it"
    unfolding recordOf_def by (rule sameShape_derefIfPtr [OF sameShape_sym [OF ss]])
  have bl: "map blank (fieldsOf m1 (recordOf m it)) = map blank (fieldsOf m (recordOf m it))"
    by (rule sameShape_fieldsOf [OF sameShape_sym [OF ss]])
  have keep: "fieldsOf m1 (recordOf m it) ! i = fieldsOf m (recordOf m it) ! i"
    if i: "i < length (fieldsOf m (recordOf m it))"
      and t: "parseTag (f_tag (fieldsOf m (recordOf m it) ! i)) \<noteq> None" for i
  proof (cases it)
    case (Ptr a)
    show ?thesis
    proof (cases "m a")
      case None
      with i Ptr show ?thesis by (simp add: recordOf_def derefIfPtr_def)
    next
      case (Some s)
      from sameShape_Some [OF ss Some] obtain s1 where s1: "m1 a = Some s1" by blast
      from Some Ptr have f: "fieldsOf m (recordOf m it) = s_fields s"
        by (simp add: recordOf_def derefIfPtr_def)
      from Some s1 Ptr have f1: "fieldsOf m1 (recordOf m it) = s_fields s1"
        by (simp add: recordOf_def derefIfPtr_def)
      from Cons.prems [of a s s1 i] Ptr Some s1 i t f show ?thesis
        unfolding f f1 by simp
    qed
  next
    case (StructVal s)
    then show ?thesis by (simp add: recordOf_def derefIfPtr_def)
  next
    case Other
    with i show ?thesis by (simp add: recordOf_def derefIfPtr_def)
  qed
  have cf: "collectFields c elem (fieldsOf m1 (recordOf m it)) 0 aggs
              = collectFields c elem (fieldsOf m (recordOf m it)) 0 aggs" for elem
    by (rule collectFields_same [OF bl keep])
  have unf: "collectItems c m' (it # its) aggs =
               (if Kind (recordOf m' it) \<noteq> KStruct then Inl ElemNotStruct
                else (case collectFields c (ValueOf it) (fieldsOf m' (recordOf m' it)) 0 aggs of
                        Inl e \<Rightarrow> Inl e
                      | Inr aggs' \<Rightarrow> collectItems c m' its aggs'))" for m'
    by (simp add: Let_def recordOf_def derefIfPtr_def)
  show ?case
    unfolding unf rec cf ih by (rule refl)
qed

lemma directivesFrom_nth:
  "i < length fds \<Longrightarrow> parseTag (f_tag (fds ! i)) = Some spec \<Longrightarrow>
   (fi + i, fds ! i, spec) \<in> set (directivesFrom fi fds)"
  by (force simp: directivesFrom_def in_set_enumerate_eq)

lemma framed_discovery:
  assumes ap: "targetsUntagged (mem w) items"
    and fr: "framed w items w1"
  shows "collectItems c (mem w1) items aggs = collectItems c (mem w) items aggs"
proof (rule collectItems_same)
  from fr show "sameShape (mem w) (mem w1)" by (simp add: framed_def)
next
  fix a s s1 i
  assume it: "Ptr a \<in> set items" and s: "mem w a = Some s" and s1: "mem w1 a = Some s1"
    and i: "i < length (s_fields s)" and t: "parseTag (f_tag (s_fields s ! i)) \<noteq> None"
  from t obtain spec where sp: "parseTag (f_tag (s_fields s ! i)) = Some spec" by auto
  from s have ds: "directives (mem w) (Ptr a) = directivesFrom 0 (s_fields s)"
    by (simp add: directives_def recordOf_def derefIfPtr_def)
  from directivesFrom_nth [OF i sp, of 0] ds
  have d: "(i, s_fields s ! i, spec) \<in> set (directives (mem w) (Ptr a))" by simp
  from ap it d have "f_name (s_fields s ! i) \<notin> targetOf ` set (directives (mem w) (Ptr a))"
    unfolding targetsUntagged_def list_all_iff by fastforce
  with it have "f_name (s_fields s ! i) \<notin> targetsAt (mem w) items a"
    by (simp add: targetsAt_def)
  with fr s s1 i show "s_fields s1 ! i = s_fields s ! i"
    unfolding framed_def by blast
qed

text \<open>
  C7, as the code has it. When no directive of the batch uses the \<open>fn:\<close> marker and no
  directive resolves to a field of its record that carries a directive, a second call of
  \<open>Process\<close> on the batch as the first call left it, with the same order of the map
  iteration and the same schedule, returns what the first call returned and leaves every
  record as the first call left it.
\<close>

theorem Process_twice:
  assumes ord: "mapOrder mapRange"
    and nc: "noCallbacks (mem w) items"
    and ap: "targetsUntagged (mem w) items"
    and run1: "Process c mapRange sched items w = (e1, w1)"
    and run2: "Process c mapRange sched items w1 = (e2, w2)"
  shows "e2 = e1 \<and> mem w2 = mem w1"
proof -
  from Process_kept [OF ord framed_kept [OF nc] framed_refl run1]
  have fr: "framed w items w1" by simp
  then have ss: "sameShape (mem w) (mem w1)" by (simp add: framed_def)
  have same: "collectItems c (mem w1) items [] = collectItems c (mem w) items []"
    by (rule framed_discovery [OF ap fr])
  have rel: "settled w1 w w1"
    using ss by (simp add: settled_def)
  from Process_both [OF ord same settled_kept [OF nc] rel run1] run2
  have "e2 = e1" and "settled w1 w1 w2 \<or> (w1 = w \<and> w2 = w1)"
    by auto
  with settled_final [of w1 w2] show ?thesis by auto
qed

lemma parseTag_inc: "parseTag ''inc'' = Some \<lparr>funcName = ''inc'', outputTarget = []\<rparr>"
  by code_simp

lemma Process_worldA_inc:
  "Process engInc id [] [Ptr 0] (worldA ''inc'') =
     (None,
      \<lparr>mem = [0 \<mapsto> \<lparr>s_fields = [mkField ''A'' ''inc'' TInt (VInt 2)], s_methods = []\<rparr>],
       log = [EvHandle ''inc'' [VInt 1] Map.empty, EvSet 0 ''A'' (VInt 2)]\<rparr>)"
  by (simp add: Process_def worldA_def recA_def mkField_def parseTag_inc
      engInc_def Register_def New_def buildTasks_def runTask_def bindRef_def resolveOut_def
      hInc_def HasPrefix_def setField_def derefIfPtr_def FieldByName_def CanSet_def
      AssignableTo_def SetValue_def refNameByIndex_def Let_def)

lemma Process_worldA_inc_again:
  "Process engInc id [] [Ptr 0]
     \<lparr>mem = [0 \<mapsto> \<lparr>s_fields = [mkField ''A'' ''inc'' TInt (VInt 2)], s_methods = []\<rparr>],
      log = [EvHandle ''inc'' [VInt 1] Map.empty, EvSet 0 ''A'' (VInt 2)]\<rparr> =
     (None,
      \<lparr>mem = [0 \<mapsto> \<lparr>s_fields = [mkField ''A'' ''inc'' TInt (VInt 3)], s_methods = []\<rparr>],
       log = [EvHandle ''inc'' [VInt 1] Map.empty, EvSet 0 ''A'' (VInt 2),
              EvHandle ''inc'' [VInt 2] Map.empty, EvSet 0 ''A'' (VInt 3)]\<rparr>)"
  by (simp add: Process_def mkField_def parseTag_inc
      engInc_def Register_def New_def buildTasks_def runTask_def bindRef_def resolveOut_def
      hInc_def HasPrefix_def setField_def derefIfPtr_def FieldByName_def CanSet_def
      AssignableTo_def SetValue_def refNameByIndex_def Let_def)

text \<open>
  C7 as stated fails. The handler \<open>inc\<close> is deterministic; the field \<open>A\<close>, tagged \<open>inc\<close>,
  is its own output target. The first call of \<open>Process\<close> takes \<open>A\<close> from 1 to 2, the second
  call on the same batch takes it from 2 to 3.
\<close>

theorem Process_twice_increments:
  "(case Process engInc id [] [Ptr 0] (worldA ''inc'') of
      (e1, w1) \<Rightarrow>
        (case Process engInc id [] [Ptr 0] w1 of
           (e2, w2) \<Rightarrow>
             e1 = None \<and> e2 = None
             \<and> map f_val (fieldsOf (mem w1) (StructAt 0)) = [VInt 2]
             \<and> map f_val (fieldsOf (mem w2) (StructAt 0)) = [VInt 3]
             \<and> mem w2 \<noteq> mem w1))"
proof -
  have "[0 \<mapsto> \<lparr>s_fields = [mkField ''A'' ''inc'' TInt (VInt 3)], s_methods = []\<rparr>] (0::nat)
        \<noteq> [0 \<mapsto> \<lparr>s_fields = [mkField ''A'' ''inc'' TInt (VInt 2)], s_methods = []\<rparr>] 0"
    by (simp add: mkField_def)
  then have "[0::nat \<mapsto> \<lparr>s_fields = [mkField ''A'' ''inc'' TInt (VInt 3)], s_methods = []\<rparr>]
        \<noteq> [0 \<mapsto> \<lparr>s_fields = [mkField ''A'' ''inc'' TInt (VInt 2)], s_methods = []\<rparr>]"
    by metis
  then show ?thesis
    by (simp only: Process_worldA_inc prod.case Process_worldA_inc_again, simp add: mkField_def)
qed

lemma Process_worldB_fB_again:
  "Process engF id [] [Ptr 0]
      \<lparr>mem = [0 \<mapsto> \<lparr>s_fields = [mkField ''A'' ''f,B'' TInt (VInt 1), mkField ''B'' [] TInt (VInt 7),
                  mkField ''C'' [] TString (VStr ''c'')], s_methods = []\<rparr>],
       log = [EvHandle ''f'' [VInt 1] Map.empty, EvSet 0 ''B'' (VInt 7)]\<rparr> =
     (None,
      \<lparr>mem = [0 \<mapsto> \<lparr>s_fields = [mkField ''A'' ''f,B'' TInt (VInt 1), mkField ''B'' [] TInt (VInt 7),
                  mkField ''C'' [] TString (VStr ''c'')], s_methods = []\<rparr>],
       log = [EvHandle ''f'' [VInt 1] Map.empty, EvSet 0 ''B'' (VInt 7),
              EvHandle ''f'' [VInt 1] Map.empty, EvSet 0 ''B'' (VInt 7)]\<rparr>)"
  by (simp add: Process_def mkField_def parseTag_f_B parseTag_empty
      engF_def Register_def New_def buildTasks_def runTask_def bindRef_def resolveOut_def
      hSeven_def HasPrefix_def setField_def derefIfPtr_def FieldByName_def CanSet_def
      AssignableTo_def SetValue_def Let_def)

theorem Process_twice_witness:
  "mapOrder id
   \<and> noCallbacks (mem (worldB ''f,B'')) [Ptr 0]
   \<and> targetsUntagged (mem (worldB ''f,B'')) [Ptr 0]
   \<and> fst (Process engF id [] [Ptr 0] (worldB ''f,B'')) = None
   \<and> fst (Process engF id [] [Ptr 0] (snd (Process engF id [] [Ptr 0] (worldB ''f,B'')))) = None
   \<and> mem (snd (Process engF id [] [Ptr 0] (snd (Process engF id [] [Ptr 0] (worldB ''f,B'')))))
       = mem (snd (Process engF id [] [Ptr 0] (worldB ''f,B'')))"
proof -
  have nc: "noCallbacks (mem (worldB ''f,B'')) [Ptr 0]"
    by (simp add: noCallbacks_def directives_worldB_fB usesCallback_def HasPrefix_def)
  have ap: "targetsUntagged (mem (worldB ''f,B'')) [Ptr 0]"
    by (simp add: targetsUntagged_def directives_worldB_fB targetOf_def mkField_def)
  have run1: "Process engF id [] [Ptr 0] (worldB ''f,B'')
      = (None, snd (Process engF id [] [Ptr 0] (worldB ''f,B'')))"
    by (simp add: Process_worldB_fB)
  have run2: "Process engF id [] [Ptr 0] (snd (Process engF id [] [Ptr 0] (worldB ''f,B'')))
      = (None, snd (Process engF id [] [Ptr 0]
                 (snd (Process engF id [] [Ptr 0] (worldB ''f,B'')))))"
    by (simp add: Process_worldB_fB Process_worldB_fB_again)
  have ok1: "fst (Process engF id [] [Ptr 0] (worldB ''f,B'')) = None"
    by (simp add: Process_worldB_fB)
  have ok2: "fst (Process engF id [] [Ptr 0]
                (snd (Process engF id [] [Ptr 0] (worldB ''f,B'')))) = None"
    by (simp add: Process_worldB_fB Process_worldB_fB_again)
  from Process_twice [OF mapOrder_id nc ap run1 run2]
  have "mem (snd (Process engF id [] [Ptr 0] (snd (Process engF id [] [Ptr 0] (worldB ''f,B'')))))
       = mem (snd (Process engF id [] [Ptr 0] (worldB ''f,B'')))"
    by (rule conjunct2)
  with mapOrder_id nc ap ok1 ok2 show ?thesis
    by (intro conjI)
qed

section \<open>Operations on the store\<close>

lemma mem_applyOp: "mem (applyOp x w) = memOp x (mem w)"
proof (cases x)
  case (OpSet a n v)
  show ?thesis
    unfolding OpSet memOp_def mem_applyOp_Set by (simp split: option.splits)
next
  case (OpCall a md v)
  show ?thesis
    unfolding OpCall memOp_def mem_applyOp_Call by (simp split: option.splits)
qed

lemma sameShape_memOp: "sameShape m (memOp x m)"
  using sameShape_applyOp [of "\<lparr>mem = m, log = []\<rparr>" x] by (simp add: memOp_def)

lemma memOps_Nil [simp]: "memOps [] m = m"
  by (simp add: memOps_def)

lemma memOps_Cons [simp]: "memOps (x # xs) m = memOps xs (memOp x m)"
  by (simp add: memOps_def)

lemma memOps_append [simp]: "memOps (xs @ ys) m = memOps ys (memOps xs m)"
  by (simp add: memOps_def)

lemma sameShape_memOps: "sameShape m (memOps xs m)"
proof (induction xs arbitrary: m)
  case Nil
  show ?case by simp
next
  case (Cons x xs)
  from sameShape_trans [OF sameShape_memOp Cons.IH] show ?case by simp
qed

lemma memOp_Set:
  "memOp (OpSet a n v) m =
     (case m a of None \<Rightarrow> m | Some s \<Rightarrow> m(a \<mapsto> s\<lparr>s_fields := setByName n v (s_fields s)\<rparr>))"
  unfolding memOp_def mem_applyOp_Set by (simp split: option.splits)

lemma setByName_commute:
  "n \<noteq> n' \<Longrightarrow>
   setByName n v (setByName n' v' fds) = setByName n' v' (setByName n v fds)"
  by (induction fds) auto

lemma apartOps_sym: "apartOps x y \<Longrightarrow> apartOps y x"
  by (cases x; cases y) auto

lemma memOp_commute:
  assumes "apartOps x y"
  shows "memOp x (memOp y m) = memOp y (memOp x m)"
proof -
  from assms obtain a n v b n' v' where x: "x = OpSet a n v" and y: "y = OpSet b n' v'"
    and ne: "a \<noteq> b \<or> n \<noteq> n'"
    by (cases x; cases y) auto
  show ?thesis
  proof (cases "a = b")
    case True
    with ne have "n \<noteq> n'" by simp
    with True show ?thesis
      unfolding x y memOp_Set by (simp add: setByName_commute split: option.splits)
  next
    case False
    then show ?thesis
      unfolding x y memOp_Set by (auto simp: fun_upd_twist split: option.splits)
  qed
qed

lemma memOps_commute:
  "\<forall>y\<in>set ys. apartOps x y \<Longrightarrow> memOps ys (memOp x m) = memOp x (memOps ys m)"
proof (induction ys arbitrary: m)
  case Nil
  show ?case by simp
next
  case (Cons y ys)
  from Cons.prems have "apartOps x y" and rest: "\<forall>y\<in>set ys. apartOps x y" by simp_all
  have "memOps (y # ys) (memOp x m) = memOps ys (memOp x (memOp y m))"
    using memOp_commute [OF \<open>apartOps x y\<close>, of m] by simp
  also have "\<dots> = memOp x (memOps ys (memOp y m))"
    by (rule Cons.IH [OF rest])
  finally show ?case by simp
qed

lemma memOps_blocks_commute:
  "\<forall>x\<in>set xs. \<forall>y\<in>set ys. apartOps x y \<Longrightarrow> memOps ys (memOps xs m) = memOps xs (memOps ys m)"
proof (induction xs arbitrary: m)
  case Nil
  show ?case by simp
next
  case (Cons x xs)
  from Cons.prems have x: "\<forall>y\<in>set ys. apartOps x y"
    and rest: "\<forall>x\<in>set xs. \<forall>y\<in>set ys. apartOps x y"
    by simp_all
  from Cons.IH [OF rest] memOps_commute [OF x] show ?case by simp
qed

text \<open>
  Blocks of operations that are apart from each other can be done in any order of the
  blocks.
\<close>

lemma memOps_blocks_perm:
  assumes ap: "\<And>t t'. t \<in> set ts \<Longrightarrow> t' \<in> set ts \<Longrightarrow> t \<noteq> t' \<Longrightarrow>
                  \<forall>x\<in>set (f t). \<forall>y\<in>set (f t'). apartOps x y"
  shows "distinct ts \<Longrightarrow> mset ts' = mset ts \<Longrightarrow>
         memOps (concat (map f ts')) m = memOps (concat (map f ts)) m"
  using ap
proof (induction ts arbitrary: ts' m)
  case Nil
  then show ?case by simp
next
  case (Cons t ts)
  from Cons.prems(2) have "t \<in> set ts'"
    by (metis list.set_intros(1) mset_eq_setD)
  then obtain p q where ts': "ts' = p @ t # q" by (meson split_list)
  from Cons.prems(2) ts' have ms: "mset (p @ q) = mset ts" by simp
  from Cons.prems(1) have d: "distinct ts" and nt: "t \<notin> set ts" by simp_all
  from ms nt have np: "t \<notin> set p" by (metis Un_iff mset_eq_setD set_append)
  have sub: "set p \<subseteq> set ts" using ms by (metis Un_upper1 mset_eq_setD set_append)
  have "\<forall>x\<in>set (f t). \<forall>y\<in>set (concat (map f p)). apartOps x y"
  proof (intro ballI)
    fix x y
    assume x: "x \<in> set (f t)" and y: "y \<in> set (concat (map f p))"
    from y obtain t' where t': "t' \<in> set p" and yt: "y \<in> set (f t')" by auto
    from t' np have "t \<noteq> t'" by auto
    from Cons.prems(3) [of t t'] t' sub this x yt show "apartOps x y" by auto
  qed
  from memOps_blocks_commute [OF this]
  have sw: "memOps (concat (map f p)) (memOps (f t) m) = memOps (f t) (memOps (concat (map f p)) m)"
    .
  have ih: "memOps (concat (map f (p @ q))) (memOps (f t) m)
              = memOps (concat (map f ts)) (memOps (f t) m)"
    by (rule Cons.IH [OF d ms]) (rule Cons.prems(3), simp_all)
  show ?case
    unfolding ts' using sw ih by simp
qed

section \<open>A run that succeeds does the pending operations\<close>

lemma planRefs_shape: "sameShape m m' \<Longrightarrow> planRefs m r todo = planRefs m' r todo"
  unfolding planRefs_def using sameShape_planRef [of m m' r] by auto

lemma pending_shape: "sameShape m m' \<Longrightarrow> pending c m th = pending c m' th"
  by (cases th) (simp_all add: planRefs_shape [of m m'] split: option.splits)

lemma allOk_Nil [simp]: "allOk []"
  by (simp add: allOk_def)

lemma allOk_Cons [simp]: "allOk (p # ps) \<longleftrightarrow> \<not> isl p \<and> allOk ps"
  by (simp add: allOk_def)

lemma allOk_append [simp]: "allOk (ps @ qs) \<longleftrightarrow> allOk ps \<and> allOk qs"
  by (simp add: allOk_def)

lemma opsOf_Nil [simp]: "opsOf [] = []"
  by (simp add: opsOf_def)

lemma opsOf_Cons [simp]: "opsOf (p # ps) = projr p # opsOf ps"
  by (simp add: opsOf_def)

lemma opsOf_append [simp]: "opsOf (ps @ qs) = opsOf ps @ opsOf qs"
  by (simp add: opsOf_def)

lemma planRefs_Nil [simp]: "planRefs m r [] = []"
  by (simp add: planRefs_def)

lemma planRefs_Cons [simp]:
  "planRefs m r ((idx, ref) # todo) = planRef m r idx ref # planRefs m r todo"
  by (simp add: planRefs_def)

lemma bindRef_ok:
  assumes "planRef (mem u) r idx ref = Inr x"
  shows "bindRef r idx ref u = (None, applyOp x u)"
  using assms by (simp add: bindRef_plan)

lemma bindRef_success:
  assumes "bindRef r idx ref u = (None, u')"
  shows "\<exists>x. planRef (mem u) r idx ref = Inr x \<and> u' = applyOp x u"
  using assms by (cases "planRef (mem u) r idx ref") (simp_all add: bindRef_plan)

lemma bindRefs_ok:
  "allOk (planRefs (mem u) r todo) \<Longrightarrow>
   \<exists>u'. bindRefs r todo u = (None, u')
        \<and> mem u' = memOps (opsOf (planRefs (mem u) r todo)) (mem u)"
proof (induction todo arbitrary: u)
  case Nil
  show ?case by simp
next
  case (Cons e todo)
  obtain idx ref where e: "e = (idx, ref)" by (cases e)
  from Cons.prems e obtain x where x: "planRef (mem u) r idx ref = Inr x"
    by (cases "planRef (mem u) r idx ref") simp_all
  have sh: "planRefs (mem (applyOp x u)) r todo = planRefs (mem u) r todo"
    by (rule planRefs_shape [OF sameShape_sym [OF sameShape_applyOp]])
  from Cons.prems e have "allOk (planRefs (mem u) r todo)" by simp
  with sh have "allOk (planRefs (mem (applyOp x u)) r todo)" by simp
  from Cons.IH [OF this] obtain u' where u': "bindRefs r todo (applyOp x u) = (None, u')"
    and m: "mem u' = memOps (opsOf (planRefs (mem (applyOp x u)) r todo)) (mem (applyOp x u))"
    by blast
  from u' bindRef_ok [OF x] e have "bindRefs r (e # todo) u = (None, u')" by simp
  moreover from m sh x e
  have "mem u' = memOps (opsOf (planRefs (mem u) r (e # todo))) (mem u)"
    by (simp add: mem_applyOp)
  ultimately show ?case by blast
qed

lemma bindRefs_success:
  "bindRefs r todo u = (None, u') \<Longrightarrow> allOk (planRefs (mem u) r todo)"
proof (induction todo arbitrary: u)
  case Nil
  show ?case by simp
next
  case (Cons e todo)
  obtain idx ref where e: "e = (idx, ref)" by (cases e)
  obtain e1 u1 where b: "bindRef r idx ref u = (e1, u1)" by (cases "bindRef r idx ref u")
  from Cons.prems e b have e1: "e1 = None" and rest: "bindRefs r todo u1 = (None, u')"
    by (cases e1; simp)+
  from bindRef_success [OF b [unfolded e1]] obtain x where
    x: "planRef (mem u) r idx ref = Inr x" and u1: "u1 = applyOp x u"
    by blast
  have sh: "planRefs (mem (applyOp x u)) r todo = planRefs (mem u) r todo"
    by (rule planRefs_shape [OF sameShape_sym [OF sameShape_applyOp]])
  from Cons.IH [OF rest] u1 sh x e show ?case by simp
qed

lemma finish_ok:
  assumes ok: "allOk (pending c (mem u) th)"
  shows "\<exists>u'. finish c th u = (None, u')
           \<and> mem u' = memOps (opsOf (pending c (mem u) th)) (mem u)"
proof (cases th)
  case (Fresh task)
  show ?thesis
  proof (cases "aggregateHandlers c (t_name task)")
    case None
    with ok Fresh show ?thesis by simp
  next
    case (Some h)
    let ?u = "u\<lparr>log := log u @ [EvHandle (t_name task) (t_values task) (combineCtx c)]\<rparr>"
    from ok Fresh Some
    have "allOk (planRefs (mem ?u) (h (t_values task) (combineCtx c)) (enumerate 0 (t_refs task)))"
      by simp
    from bindRefs_ok [OF this] Fresh Some show ?thesis
      by (simp add: runTask_def)
  qed
next
  case (Running r todo)
  with ok bindRefs_ok [of u r todo] show ?thesis by simp
next
  case Finished
  then show ?thesis by simp
qed

lemma finish_success:
  assumes run: "finish c th u = (None, u')"
  shows "allOk (pending c (mem u) th)"
proof (cases th)
  case (Fresh task)
  show ?thesis
  proof (cases "aggregateHandlers c (t_name task)")
    case None
    with run Fresh show ?thesis by (simp add: runTask_def)
  next
    case (Some h)
    let ?u = "u\<lparr>log := log u @ [EvHandle (t_name task) (t_values task) (combineCtx c)]\<rparr>"
    from run Fresh Some
    have "bindRefs (h (t_values task) (combineCtx c)) (enumerate 0 (t_refs task)) ?u = (None, u')"
      by (simp add: runTask_def)
    from bindRefs_success [OF this] Fresh Some show ?thesis by simp
  qed
next
  case (Running r todo)
  with run bindRefs_success [of r todo u u'] show ?thesis by simp
next
  case Finished
  then show ?thesis by simp
qed

lemma drain_ok:
  "allOk (concat (map (pending c (mem u)) ths)) \<Longrightarrow>
   \<exists>u'. drain c ths fe u = (fe, u')
        \<and> mem u' = memOps (opsOf (concat (map (pending c (mem u)) ths))) (mem u)"
proof (induction ths arbitrary: u)
  case Nil
  show ?case by simp
next
  case (Cons th ths)
  from Cons.prems have ok: "allOk (pending c (mem u) th)"
    and rest: "allOk (concat (map (pending c (mem u)) ths))"
    by simp_all
  from finish_ok [OF ok] obtain u1 where f: "finish c th u = (None, u1)"
    and m1: "mem u1 = memOps (opsOf (pending c (mem u) th)) (mem u)"
    by blast
  from m1 have "sameShape (mem u) (mem u1)" by (simp add: sameShape_memOps)
  then have sh: "pending c (mem u1) = pending c (mem u)"
    using pending_shape [of "mem u1" "mem u" c] sameShape_sym by blast
  from rest sh have "allOk (concat (map (pending c (mem u1)) ths))" by simp
  from Cons.IH [OF this] obtain u' where d: "drain c ths fe u1 = (fe, u')"
    and m: "mem u' = memOps (opsOf (concat (map (pending c (mem u1)) ths))) (mem u1)"
    by blast
  from f d have "drain c (th # ths) fe u = (fe, u')" by simp
  moreover from m m1 sh
  have "mem u' = memOps (opsOf (concat (map (pending c (mem u)) (th # ths)))) (mem u)"
    by simp
  ultimately show ?case by blast
qed

lemma runTasks_success:
  "runTasks c tasks u = (None, u') \<Longrightarrow>
   allOk (concat (map (pending c (mem u)) (map Fresh tasks)))
   \<and> drain c (map Fresh tasks) fe u = (fe, u')"
proof (induction tasks arbitrary: u)
  case Nil
  then show ?case by simp
next
  case (Cons task tasks)
  obtain e1 u1 where r: "runTask c task u = (e1, u1)" by (cases "runTask c task u")
  from Cons.prems r have e1: "e1 = None" and rest: "runTasks c tasks u1 = (None, u')"
    by (cases e1; simp)+
  from r e1 have f: "finish c (Fresh task) u = (None, u1)" by simp
  from finish_success [OF f] have ok: "allOk (pending c (mem u) (Fresh task))" .
  from finish_ok [OF ok] f
  have "mem u1 = memOps (opsOf (pending c (mem u) (Fresh task))) (mem u)" by simp
  then have "sameShape (mem u) (mem u1)" by (simp add: sameShape_memOps)
  then have sh: "pending c (mem u1) = pending c (mem u)"
    using pending_shape [of "mem u1" "mem u" c] sameShape_sym by blast
  from Cons.IH [OF rest] sh ok f show ?case by simp
qed

lemma stepThread_ok:
  assumes ok: "allOk (pending c (mem u) th)"
  shows "\<exists>th' u'. stepThread c th u = (th', None, u')
           \<and> ((pending c (mem u) th' = pending c (mem u) th \<and> mem u' = mem u)
              \<or> (\<exists>x. pending c (mem u) th = Inr x # pending c (mem u) th'
                     \<and> mem u' = memOp x (mem u)))"
proof (cases th)
  case (Fresh task)
  show ?thesis
  proof (cases "aggregateHandlers c (t_name task)")
    case None
    with ok Fresh show ?thesis by simp
  next
    case (Some h)
    with Fresh show ?thesis by simp
  qed
next
  case (Running r todo)
  show ?thesis
  proof (cases todo)
    case Nil
    with Running show ?thesis by simp
  next
    case (Cons e rest)
    obtain idx ref where e: "e = (idx, ref)" by (cases e)
    from ok Running Cons e obtain x where x: "planRef (mem u) r idx ref = Inr x"
      by (cases "planRef (mem u) r idx ref") simp_all
    from bindRef_ok [OF x] Running Cons e x show ?thesis
      by (simp add: mem_applyOp)
  qed
next
  case Finished
  then show ?thesis by simp
qed

lemma concat_pending_nth:
  assumes i: "i < length ths"
  shows "concat (map f ths) = concat (map f (take i ths)) @ f (ths ! i)
           @ concat (map f (drop (Suc i) ths))"
proof -
  have "concat (map f ths) = concat (map f (take i ths @ ths ! i # drop (Suc i) ths))"
    using id_take_nth_drop [OF i] by simp
  then show ?thesis by simp
qed

lemma concat_pending_update:
  assumes i: "i < length ths"
  shows "concat (map f (ths[i := th'])) = concat (map f (take i ths)) @ f th'
           @ concat (map f (drop (Suc i) ths))"
  by (simp add: upd_conv_take_nth_drop [OF i])

lemma threadsApart_update:
  assumes ap: "threadsApart c m ths"
    and sub: "set (opsOf (pending c m th')) \<subseteq> set (opsOf (pending c m (ths ! i)))"
  shows "threadsApart c m (ths[i := th'])"
  unfolding threadsApart_def
proof (intro allI impI ballI)
  fix j k x y
  assume j: "j < length (ths[i := th'])" and k: "k < length (ths[i := th'])" and jk: "j \<noteq> k"
    and x: "x \<in> set (opsOf (pending c m (ths[i := th'] ! j)))"
    and y: "y \<in> set (opsOf (pending c m (ths[i := th'] ! k)))"
  from j k have j': "j < length ths" and k': "k < length ths" by simp_all
  from x sub j' have x': "x \<in> set (opsOf (pending c m (ths ! j)))"
    by (cases "j = i") auto
  from y sub k' have y': "y \<in> set (opsOf (pending c m (ths ! k)))"
    by (cases "k = i") auto
  from ap j' k' jk x' y' show "apartOps x y"
    unfolding threadsApart_def by blast
qed

lemma threadsApart_before:
  assumes ap: "threadsApart c m ths"
    and i: "i < length ths"
    and x: "x \<in> set (opsOf (pending c m (ths ! i)))"
  shows "\<forall>y\<in>set (opsOf (concat (map (pending c m) (take i ths)))). apartOps x y"
proof
  fix y
  assume "y \<in> set (opsOf (concat (map (pending c m) (take i ths))))"
  then obtain th where th: "th \<in> set (take i ths)" and y: "y \<in> set (opsOf (pending c m th))"
    by (auto simp: opsOf_def)
  from th obtain k where k: "k < length (take i ths)" and thk: "take i ths ! k = th"
    by (auto simp: in_set_conv_nth)
  from k i have ki: "k < i" and kl: "k < length ths" by simp_all
  from thk ki have "ths ! k = th" by simp
  with ap i kl ki x y show "apartOps x y"
    unfolding threadsApart_def by (metis nat_neq_iff)
qed

text \<open>
  In concurrent mode, when every pending operation can be done and the goroutines are
  apart, the run succeeds under every schedule, and it leaves the store that doing the
  pending operations goroutine after goroutine leaves.
\<close>

lemma runConc_ok:
  "allOk (concat (map (pending c (mem u)) ths)) \<Longrightarrow> threadsApart c (mem u) ths \<Longrightarrow>
   \<exists>u'. runConc c sched ths fe u = (fe, u')
        \<and> mem u' = memOps (opsOf (concat (map (pending c (mem u)) ths))) (mem u)"
proof (induction sched arbitrary: ths u)
  case Nil
  from drain_ok [OF Nil(1)] show ?case by simp
next
  case (Cons i sched)
  show ?case
  proof (cases "i < length ths")
    case False
    with Cons.IH [OF Cons.prems] show ?thesis by simp
  next
    case True
    let ?P = "pending c (mem u)"
    from Cons.prems(1) True have oki: "allOk (?P (ths ! i))"
      by (simp add: concat_pending_nth [OF True])
    from stepThread_ok [OF oki] obtain th' u1 where
      s: "stepThread c (ths ! i) u = (th', None, u1)"
      and eff: "(?P th' = ?P (ths ! i) \<and> mem u1 = mem u)
              \<or> (\<exists>x. ?P (ths ! i) = Inr x # ?P th' \<and> mem u1 = memOp x (mem u))"
      by blast
    from s True have run: "runConc c (i # sched) ths fe u = runConc c sched (ths[i := th']) fe u1"
      by simp
    from eff show ?thesis
    proof
      assume same: "?P th' = ?P (ths ! i) \<and> mem u1 = mem u"
      then have pu: "concat (map ?P (ths[i := th'])) = concat (map ?P ths)"
        by (simp add: concat_pending_update [OF True] concat_pending_nth [OF True, of ?P])
      from same have "set (opsOf (?P th')) \<subseteq> set (opsOf (?P (ths ! i)))" by simp
      from threadsApart_update [OF Cons.prems(2) this]
      have ap': "threadsApart c (mem u1) (ths[i := th'])" using same by simp
      from Cons.prems(1) pu same
      have ok': "allOk (concat (map (pending c (mem u1)) (ths[i := th'])))" by simp
      from Cons.IH [OF ok' ap'] run pu same show ?thesis by simp
    next
      assume "\<exists>x. ?P (ths ! i) = Inr x # ?P th' \<and> mem u1 = memOp x (mem u)"
      then obtain x where px: "?P (ths ! i) = Inr x # ?P th'" and m1: "mem u1 = memOp x (mem u)"
        by blast
      from m1 have "sameShape (mem u) (mem u1)" by (simp add: sameShape_memOp)
      then have sh: "pending c (mem u1) = ?P"
        using pending_shape [of "mem u1" "mem u" c] sameShape_sym by blast
      let ?A = "concat (map ?P (take i ths))"
      let ?C = "concat (map ?P (drop (Suc i) ths))"
      have old: "concat (map ?P ths) = ?A @ (Inr x # ?P th') @ ?C"
        using concat_pending_nth [OF True, of ?P] px by simp
      have new: "concat (map ?P (ths[i := th'])) = ?A @ ?P th' @ ?C"
        by (rule concat_pending_update [OF True])
      from Cons.prems(1) old new sh
      have ok': "allOk (concat (map (pending c (mem u1)) (ths[i := th'])))" by simp
      from px have "set (opsOf (?P th')) \<subseteq> set (opsOf (?P (ths ! i)))" by auto
      from threadsApart_update [OF Cons.prems(2) this] sh
      have ap': "threadsApart c (mem u1) (ths[i := th'])" by (simp add: threadsApart_def)
      from px have "x \<in> set (opsOf (?P (ths ! i)))" by simp
      from threadsApart_before [OF Cons.prems(2) True this]
      have "\<forall>y\<in>set (opsOf ?A). apartOps x y" .
      from memOps_commute [OF this]
      have sw: "memOps (opsOf ?A) (memOp x (mem u)) = memOp x (memOps (opsOf ?A) (mem u))" .
      from Cons.IH [OF ok' ap'] obtain u' where
        r: "runConc c sched (ths[i := th']) fe u1 = (fe, u')"
        and m: "mem u' = memOps (opsOf (concat (map (pending c (mem u1)) (ths[i := th']))))
                           (mem u1)"
        by blast
      from m sh new m1 have "mem u' = memOps (opsOf (?A @ ?P th' @ ?C)) (memOp x (mem u))"
        by simp
      also have "\<dots> = memOps (opsOf (concat (map ?P ths))) (mem u)"
        unfolding old using sw by simp
      finally show ?thesis using r run by simp
    qed
  qed
qed

section \<open>The two modes\<close>

lemma collectFields_WithConcurrent:
  "collectFields (WithConcurrent c) elem fds fi aggs = collectFields c elem fds fi aggs"
  by (induction fds arbitrary: fi aggs)
     (simp_all add: WithConcurrent_def split: option.splits)

lemma collectItems_WithConcurrent:
  "collectItems (WithConcurrent c) m items aggs = collectItems c m items aggs"
  by (induction items arbitrary: aggs)
     (simp_all add: collectFields_WithConcurrent Let_def split: sum.splits)

lemma pending_WithConcurrent: "pending (WithConcurrent c) m th = pending c m th"
  by (cases th) (simp_all add: WithConcurrent_def split: option.splits)

lemma op_target:
  assumes p: "planRef m r idx ref = Inr x"
    and nfn: "\<not> HasPrefix (outputTgt ref) ''fn:''"
  shows "\<exists>a nm v. x = OpSet a nm v \<and> refTarget m ref = (Some a, nm)"
proof -
  from planRef_Inr [OF p] nfn obtain a nm v where x: "x = OpSet a nm v"
    and iv: "itemValue ref = PtrV a \<or> itemValue ref = StructAt a"
    and n: "if outputTgt ref = [] then refNameByIndex m (itemValue ref) (fieldIdx ref) = Inr nm
            else nm = outputTgt ref"
    by blast
  from iv have "addrOf (itemValue ref) = Some a" by auto
  moreover from n have "(if outputTgt ref = [] then
        (case refNameByIndex m (itemValue ref) (fieldIdx ref) of Inl p \<Rightarrow> [] | Inr n \<Rightarrow> n)
      else outputTgt ref) = nm"
    by (simp split: if_splits)
  ultimately have "refTarget m ref = (Some a, nm)" by (simp add: refTarget_def)
  with x show ?thesis by blast
qed

lemma pending_Fresh_op:
  assumes ok: "allOk (pending c m (Fresh t))"
    and x: "x \<in> set (opsOf (pending c m (Fresh t)))"
  shows "\<exists>r idx ref. ref \<in> set (t_refs t) \<and> planRef m r idx ref = Inr x"
proof (cases "aggregateHandlers c (t_name t)")
  case None
  with ok show ?thesis by simp
next
  case (Some h)
  let ?r = "h (t_values t) (combineCtx c)"
  from x Some obtain p where p: "p \<in> set (planRefs m ?r (enumerate 0 (t_refs t)))"
    and xp: "x = projr p"
    by (auto simp: opsOf_def)
  from ok Some p have "\<not> isl p" by (simp add: allOk_def list_all_iff)
  with xp have px: "p = Inr x" by (cases p) simp_all
  from p obtain idx ref where e: "(idx, ref) \<in> set (enumerate 0 (t_refs t))"
    and pr: "p = planRef m ?r idx ref"
    by (auto simp: planRefs_def)
  from e have "ref \<in> set (t_refs t)" by (auto simp: in_set_enumerate_eq)
  with pr px show ?thesis by metis
qed

lemma entries_of_aggs:
  assumes a: "(n, rs) \<in> set (addEntries [] es)" and r: "ref \<in> set rs"
  shows "(n, ref) \<in> set es"
proof -
  have d: "distinct (map fst (addEntries [] es))"
    by (rule distinct_addEntries) simp
  from entry_refsOf [OF d a] have "rs = refsOf (addEntries [] es) n" by simp
  also have "\<dots> = map snd (filter (\<lambda>(k, r). k = n) es)"
    unfolding refsOf_addEntries by (simp add: refsOf_def)
  finally show ?thesis using r by auto
qed

text \<open>Tasks of a batch whose tasks are apart have operations that are apart.\<close>

lemma tasks_apart:
  assumes nc: "noCallbacks m items"
    and ap: "tasksApart m items"
    and t: "(n, rs) \<in> set (addEntries [] (allEntries m items))"
    and t': "(n', rs') \<in> set (addEntries [] (allEntries m items))"
    and ne: "n \<noteq> n'"
    and ok: "allOk (pending c m (Fresh \<lparr>t_name = n, t_refs = rs, t_values = map fieldVal rs\<rparr>))"
    and ok': "allOk (pending c m (Fresh \<lparr>t_name = n', t_refs = rs', t_values = map fieldVal rs'\<rparr>))"
    and x: "x \<in> set (opsOf (pending c m
                 (Fresh \<lparr>t_name = n, t_refs = rs, t_values = map fieldVal rs\<rparr>)))"
    and y: "y \<in> set (opsOf (pending c m
                 (Fresh \<lparr>t_name = n', t_refs = rs', t_values = map fieldVal rs'\<rparr>)))"
  shows "apartOps x y"
proof -
  have nfn: "\<not> HasPrefix (outputTgt ref) ''fn:''" if "(k, ref) \<in> set (allEntries m items)"
    for k ref
  proof -
    from that have "ref \<in> snd ` set (allEntries m items)" by force
    from allEntries_mem [OF this] obtain it fi fd spec where it: "it \<in> set items"
      and d: "(fi, fd, spec) \<in> set (directives m it)"
      and r: "ref = \<lparr>itemValue = ValueOf it, fieldIdx = fi, fieldVal = f_val fd,
                  outputTgt = outputTarget spec\<rparr>"
      by blast
    from nc it d have "\<not> HasPrefix (outputTarget spec) ''fn:''"
      by (auto simp: noCallbacks_def list_all_iff usesCallback_def)
    with r show ?thesis by simp
  qed
  from pending_Fresh_op [OF ok x] obtain r idx ref where ref: "ref \<in> set rs"
    and p: "planRef m r idx ref = Inr x"
    by auto
  from pending_Fresh_op [OF ok' y] obtain r' idx' ref' where ref': "ref' \<in> set rs'"
    and p': "planRef m r' idx' ref' = Inr y"
    by auto
  from entries_of_aggs [OF t ref] have e: "(n, ref) \<in> set (allEntries m items)" .
  from entries_of_aggs [OF t' ref'] have e': "(n', ref') \<in> set (allEntries m items)" .
  from op_target [OF p nfn [OF e]] obtain a nm v where x': "x = OpSet a nm v"
    and tg: "refTarget m ref = (Some a, nm)"
    by blast
  from op_target [OF p' nfn [OF e']] obtain a' nm' v' where y': "y = OpSet a' nm' v'"
    and tg': "refTarget m ref' = (Some a', nm')"
    by blast
  from ap e e' ne have "refTarget m ref \<noteq> refTarget m ref'"
    unfolding tasksApart_def list_all_iff by fastforce
  with tg tg' x' y' show ?thesis by auto
qed

lemma allOk_concat: "allOk (concat pss) \<longleftrightarrow> (\<forall>ps\<in>set pss. allOk ps)"
  by (auto simp: allOk_def list_all_iff)

lemma opsOf_concat: "opsOf (concat (map f ts)) = concat (map (\<lambda>t. opsOf (f t)) ts)"
  by (simp add: opsOf_def map_concat comp_def)

lemma distinct_buildTasks:
  assumes ord: "mapOrder mapRange" and d: "distinct (map fst aggs)"
  shows "distinct (buildTasks mapRange aggs)"
proof -
  from d have "distinct aggs" by (simp add: distinct_map)
  with ord have da: "distinct (mapRange aggs)"
    unfolding mapOrder_def by (metis mset_eq_imp_distinct_iff)
  have "inj_on (\<lambda>(n, rs). \<lparr>t_name = n, t_refs = rs, t_values = map fieldVal rs\<rparr>)
          (set (mapRange aggs))"
    by (auto simp: inj_on_def)
  with da show ?thesis by (simp add: buildTasks_def distinct_map)
qed

text \<open>
  C6, as the code has it. Take a batch in which no directive uses the \<open>fn:\<close> marker and
  entries of different function names are bound to different fields. When \<open>Process\<close> in
  sequential mode returns success, then \<open>Process\<close> in concurrent mode on the same batch
  returns success too, under every schedule and whatever the order of the map iteration
  in the two calls, and leaves every record as the sequential call leaves it.
\<close>

theorem Process_modes_agree:
  assumes ord: "mapOrder mapRange"
    and ord': "mapOrder mapRange'"
    and nc: "noCallbacks (mem w) items"
    and ap: "tasksApart (mem w) items"
    and seqm: "\<not> concurrent c"
    and run: "Process c mapRange sched items w = (None, w1)"
    and run': "Process (WithConcurrent c) mapRange' sched' items w = (e2, w2)"
  shows "e2 = None \<and> mem w2 = mem w1"
proof (cases "items = []")
  case True
  with run run' show ?thesis by (simp add: Process_def)
next
  case False
  let ?c = "WithConcurrent c"
  let ?m = "mem w"
  let ?f = "\<lambda>t. opsOf (pending c ?m (Fresh t))"
  from run False obtain aggs where col: "collectItems c ?m items [] = Inr aggs"
    by (cases "collectItems c ?m items []") (simp_all add: Process_def)
  let ?ts = "buildTasks mapRange aggs"
  let ?ts' = "buildTasks mapRange' aggs"
  from collectItems_Inr [OF col] have aggs: "aggs = addEntries [] (allEntries ?m items)" .
  have d: "distinct (map fst aggs)"
    unfolding aggs by (rule distinct_addEntries) simp
  from run False col seqm have "runTasks c ?ts w = (None, w1)"
    by (simp add: Process_def)
  from runTasks_success [OF this, of None]
  have ok: "allOk (concat (map (pending c ?m) (map Fresh ?ts)))"
    and dr: "drain c (map Fresh ?ts) None w = (None, w1)"
    by simp_all
  from drain_ok [OF ok, of None] dr
  have m1: "mem w1 = memOps (concat (map ?f ?ts)) ?m"
    by (simp add: opsOf_concat comp_def del: pending.simps)
  have ms: "mset ?ts' = mset ?ts"
    unfolding buildTasks_def mapOrder_image [OF ord] mapOrder_image [OF ord'] by (rule refl)
  then have st: "set ?ts' = set ?ts" by (rule mset_eq_setD)
  from ok have okt: "allOk (pending c ?m (Fresh t))" if "t \<in> set ?ts" for t
    using that by (auto simp: allOk_concat simp del: pending.simps)
  have apart: "\<forall>x\<in>set (?f t). \<forall>y\<in>set (?f t'). apartOps x y"
    if t: "t \<in> set ?ts" and t': "t' \<in> set ?ts" and ne: "t \<noteq> t'" for t t'
  proof (intro ballI)
    fix x y
    assume x: "x \<in> set (?f t)" and y: "y \<in> set (?f t')"
    from t obtain n rs where nrs: "(n, rs) \<in> set aggs"
      and teq: "t = \<lparr>t_name = n, t_refs = rs, t_values = map fieldVal rs\<rparr>"
      by (auto simp: buildTasks_def mapOrder_set [OF ord])
    from t' obtain n' rs' where nrs': "(n', rs') \<in> set aggs"
      and teq': "t' = \<lparr>t_name = n', t_refs = rs', t_values = map fieldVal rs'\<rparr>"
      by (auto simp: buildTasks_def mapOrder_set [OF ord])
    have "n \<noteq> n'"
    proof
      assume "n = n'"
      with entry_refsOf [OF d nrs] entry_refsOf [OF d nrs'] have "rs = rs'" by simp
      with \<open>n = n'\<close> teq teq' ne show False by simp
    qed
    from tasks_apart [OF nc ap nrs [unfolded aggs] nrs' [unfolded aggs] this
        okt [OF t, unfolded teq] okt [OF t', unfolded teq'] x [unfolded teq] y [unfolded teq']]
    show "apartOps x y" .
  qed
  have dt: "distinct ?ts" by (rule distinct_buildTasks [OF ord d])
  have dt': "distinct ?ts'" by (rule distinct_buildTasks [OF ord' d])
  have pc: "pending ?c ?m = pending c ?m"
    by (rule ext) (rule pending_WithConcurrent)
  have ok': "allOk (concat (map (pending ?c ?m) (map Fresh ?ts')))"
    unfolding pc allOk_concat using okt st by (auto simp del: pending.simps)
  have ta: "threadsApart ?c ?m (map Fresh ?ts')"
    unfolding threadsApart_def
  proof (intro allI impI)
    fix i j
    assume i: "i < length (map Fresh ?ts')" and j: "j < length (map Fresh ?ts')" and ij: "i \<noteq> j"
    from i j have i': "i < length ?ts'" and j': "j < length ?ts'" by simp_all
    from dt' i' j' ij have "?ts' ! i \<noteq> ?ts' ! j" by (simp add: nth_eq_iff_index_eq)
    moreover from i' j' st have "?ts' ! i \<in> set ?ts" "?ts' ! j \<in> set ?ts"
      by (metis nth_mem)+
    ultimately have "\<forall>x\<in>set (?f (?ts' ! i)). \<forall>y\<in>set (?f (?ts' ! j)). apartOps x y"
      by (rule apart [rotated 2])
    with i' j' show "\<forall>x\<in>set (opsOf (pending ?c ?m (map Fresh ?ts' ! i))).
                       \<forall>y\<in>set (opsOf (pending ?c ?m (map Fresh ?ts' ! j))). apartOps x y"
      unfolding pc by (simp del: pending.simps)
  qed
  from runConc_ok [OF ok' ta, of sched' None] obtain u' where
    rc: "runConc ?c sched' (map Fresh ?ts') None w = (None, u')"
    and mu: "mem u' = memOps (opsOf (concat (map (pending ?c ?m) (map Fresh ?ts')))) ?m"
    by blast
  have "concurrent ?c" by (simp add: WithConcurrent_def)
  with False col rc have "Process ?c mapRange' sched' items w = (None, u')"
    by (simp add: Process_def collectItems_WithConcurrent)
  with run' have e2: "e2 = None" and w2: "w2 = u'" by simp_all
  from mu have "mem u' = memOps (concat (map ?f ?ts')) ?m"
    unfolding pc by (simp add: opsOf_concat comp_def del: pending.simps)
  also have "\<dots> = memOps (concat (map ?f ?ts)) ?m"
    by (rule memOps_blocks_perm [OF apart dt ms])
  finally show ?thesis using e2 w2 m1 by simp
qed

lemma Process_worldN_concurrent:
  "Process (WithConcurrent engFG) id [] [Ptr 0] worldN =
     (Some (CannotSetField ''Nope''),
      \<lparr>mem = [0 \<mapsto> \<lparr>s_fields = [mkField ''A'' ''f,Nope'' TInt (VInt 1),
                                  mkField ''B'' ''g'' TInt (VInt 0)],
                      s_methods = []\<rparr>],
       log = [EvHandle ''f'' [VInt 1] Map.empty, EvHandle ''g'' [VInt 2] Map.empty,
              EvSet 0 ''B'' (VInt 0)]\<rparr>)"
  by (simp only: Process_def collectItems_WithConcurrent collect_worldN,
      simp add: WithConcurrent_def buildTasks_def runTask_def bindRef_def resolveOut_def
      engFG_def engF_def Register_def New_def hSeven_def hNone_def worldN_def recN_def mkField_def
      HasPrefix_def setField_def derefIfPtr_def refNameByIndex_def FieldByName_def CanSet_def
      AssignableTo_def SetValue_def keepFirst_def Let_def)

lemma allEntries_worldN:
  "allEntries (mem worldN) [Ptr 0] =
     [(''f'', \<lparr>itemValue = PtrV 0, fieldIdx = 0, fieldVal = VInt 1, outputTgt = ''Nope''\<rparr>),
      (''g'', \<lparr>itemValue = PtrV 0, fieldIdx = 1, fieldVal = VInt 2, outputTgt = []\<rparr>)]"
  by (simp add: allEntries_def entryOf_def directives_def directivesFrom_def recordOf_def
      derefIfPtr_def worldN_def recN_def mkField_def parseTag_f_Nope parseTag_g)

text \<open>
  C6 as stated fails. The struct has the field \<open>A\<close>, whose directive routes the result of
  \<open>f\<close> to a field \<open>Nope\<close> that does not exist, and the field \<open>B\<close> tagged \<open>g\<close>: the two tasks are
  bound to different fields, and the handlers are pure. In sequential mode the task of
  \<open>f\<close> fails first and \<open>B\<close> keeps its value 2; in concurrent mode the task of \<open>g\<close> runs all
  the same and \<open>B\<close> becomes 0.
\<close>

theorem Process_modes_differ_on_error:
  "tasksApart (mem worldN) [Ptr 0]
   \<and> Process engFG id [] [Ptr 0] worldN =
       (Some (CannotSetField ''Nope''),
        \<lparr>mem = [0 \<mapsto> recN], log = [EvHandle ''f'' [VInt 1] Map.empty]\<rparr>)
   \<and> Process (WithConcurrent engFG) id [] [Ptr 0] worldN =
       (Some (CannotSetField ''Nope''),
        \<lparr>mem = [0 \<mapsto> \<lparr>s_fields = [mkField ''A'' ''f,Nope'' TInt (VInt 1),
                                    mkField ''B'' ''g'' TInt (VInt 0)],
                        s_methods = []\<rparr>],
         log = [EvHandle ''f'' [VInt 1] Map.empty, EvHandle ''g'' [VInt 2] Map.empty,
                EvSet 0 ''B'' (VInt 0)]\<rparr>)
   \<and> map f_val (s_fields recN) = [VInt 1, VInt 2]"
proof -
  have "tasksApart (mem worldN) [Ptr 0]"
    by (simp only: tasksApart_def allEntries_worldN,
        simp add: refTarget_def refNameByIndex_def derefIfPtr_def worldN_def recN_def
          mkField_def Let_def)
  moreover have "map f_val (s_fields recN) = [VInt 1, VInt 2]"
    by (simp add: recN_def mkField_def)
  ultimately show ?thesis
    using Process_worldN Process_worldN_concurrent by (intro conjI)
qed

lemma allEntries_worldFG2:
  "allEntries (mem worldFG2) [Ptr 0, Ptr 2] =
     [(''f'', \<lparr>itemValue = PtrV 0, fieldIdx = 0, fieldVal = VInt 1, outputTgt = []\<rparr>),
      (''g'', \<lparr>itemValue = PtrV 0, fieldIdx = 1, fieldVal = VInt 2, outputTgt = []\<rparr>),
      (''f'', \<lparr>itemValue = PtrV 2, fieldIdx = 0, fieldVal = VInt 1, outputTgt = []\<rparr>),
      (''g'', \<lparr>itemValue = PtrV 2, fieldIdx = 1, fieldVal = VInt 2, outputTgt = []\<rparr>)]"
  by (simp add: allEntries_def entryOf_def directives_def directivesFrom_def recordOf_def
      derefIfPtr_def worldFG2_def recFG_def mkField_def parseTag_f parseTag_g)

lemma directives_worldFG2:
  "directives (mem worldFG2) (Ptr 0) =
     [(0, mkField ''A'' ''f'' TInt (VInt 1), \<lparr>funcName = ''f'', outputTarget = []\<rparr>),
      (1, mkField ''B'' ''g'' TInt (VInt 2), \<lparr>funcName = ''g'', outputTarget = []\<rparr>)]"
  "directives (mem worldFG2) (Ptr 2) =
     [(0, mkField ''A'' ''f'' TInt (VInt 1), \<lparr>funcName = ''f'', outputTarget = []\<rparr>),
      (1, mkField ''B'' ''g'' TInt (VInt 2), \<lparr>funcName = ''g'', outputTarget = []\<rparr>)]"
  by (simp_all add: directives_def directivesFrom_def recordOf_def
      derefIfPtr_def worldFG2_def recFG_def mkField_def parseTag_f parseTag_g)

theorem Process_modes_agree_witness:
  "mapOrder rev \<and> mapOrder id
   \<and> noCallbacks (mem worldFG2) [Ptr 0, Ptr 2]
   \<and> tasksApart (mem worldFG2) [Ptr 0, Ptr 2]
   \<and> \<not> concurrent engFG
   \<and> fst (Process engFG rev [] [Ptr 0, Ptr 2] worldFG2) = None
   \<and> fst (Process (WithConcurrent engFG) id [1, 0, 0, 1, 1, 0] [Ptr 0, Ptr 2] worldFG2) = None
   \<and> mem (snd (Process (WithConcurrent engFG) id [1, 0, 0, 1, 1, 0] [Ptr 0, Ptr 2] worldFG2))
       = mem (snd (Process engFG rev [] [Ptr 0, Ptr 2] worldFG2))"
proof -
  have nc: "noCallbacks (mem worldFG2) [Ptr 0, Ptr 2]"
    by (simp add: noCallbacks_def directives_worldFG2 usesCallback_def HasPrefix_def)
  have ap: "tasksApart (mem worldFG2) [Ptr 0, Ptr 2]"
    by (simp only: tasksApart_def allEntries_worldFG2,
        simp add: refTarget_def refNameByIndex_def derefIfPtr_def worldFG2_def recFG_def
          mkField_def Let_def)
  have seqm: "\<not> concurrent engFG"
    by (simp add: engFG_def engF_def Register_def New_def)
  have run: "Process engFG rev [] [Ptr 0, Ptr 2] worldFG2
      = (None, snd (Process engFG rev [] [Ptr 0, Ptr 2] worldFG2))"
    using Process_worldFG2 by (metis prod.collapse)
  have run': "Process (WithConcurrent engFG) id [1, 0, 0, 1, 1, 0] [Ptr 0, Ptr 2] worldFG2
      = (fst (Process (WithConcurrent engFG) id [1, 0, 0, 1, 1, 0] [Ptr 0, Ptr 2] worldFG2),
         snd (Process (WithConcurrent engFG) id [1, 0, 0, 1, 1, 0] [Ptr 0, Ptr 2] worldFG2))"
    by simp
  from Process_modes_agree [OF mapOrder_rev mapOrder_id nc ap seqm run run']
  have "fst (Process (WithConcurrent engFG) id [1, 0, 0, 1, 1, 0] [Ptr 0, Ptr 2] worldFG2) = None"
    and "mem (snd (Process (WithConcurrent engFG) id [1, 0, 0, 1, 1, 0] [Ptr 0, Ptr 2] worldFG2))
       = mem (snd (Process engFG rev [] [Ptr 0, Ptr 2] worldFG2))"
    by simp_all
  with mapOrder_rev mapOrder_id nc ap seqm Process_worldFG2 show ?thesis
    by (intro conjI)
qed

end
